theory Spec2Isabelle
  imports Main "HOL-Library.AList" "HOL-Library.Char_ord" "HOL-Library.List_Lexorder"
begin

section \<open>JSON values and JavaScript objects\<close>

text \<open>
  A parsed JSON value, as \<^verbatim>\<open>JSON.parse\<close> delivers it. An object is the list of its own
  properties in enumeration order (the order of \<^verbatim>\<open>Object.keys\<close>); in a parsed value its
  keys are pairwise distinct. Numbers are integers here: the code under study only tests a
  number for being zero and compares ids for equality. A string is a list of characters,
  one per code unit.

  The objects that the code builds itself, the accumulator of the flattener and the density
  table, start as \<^verbatim>\<open>{}\<close> and inherit from \<^verbatim>\<open>Object.prototype\<close>. Reading a key that such an
  object does not own finds the member of \<^verbatim>\<open>Object.prototype\<close> of that name, if there is
  one, and writing the key \<^verbatim>\<open>__proto__\<close> reaches the inherited accessor instead of creating a
  property. Both are part of the model. One thing is left outside it: the runtime
  enumerates keys that are array indices before the others. The order of enumeration does
  not change the mapping from keys to values.
\<close>

datatype json =
    JNull
  | JBool bool
  | JNum int
  | JStr string
  | JArr "json list"
  | JObj "(string \<times> json) list"

type_synonym props = "(string \<times> json) list"

datatype exn = SyntaxError | TypeError

text \<open>\<^verbatim>\<open>typeof v === 'object' && v !== null && !Array.isArray(v)\<close>\<close>

fun isPlainObject :: "json \<Rightarrow> bool" where
  "isPlainObject (JObj _) = True"
| "isPlainObject _ = False"

fun isArray :: "json \<Rightarrow> bool" where
  "isArray (JArr _) = True"
| "isArray _ = False"

text \<open>Truthiness of a value read from a property; \<open>None\<close> is \<^verbatim>\<open>undefined\<close>.\<close>

fun truthy :: "json option \<Rightarrow> bool" where
  "truthy None = False"
| "truthy (Some JNull) = False"
| "truthy (Some (JBool b)) = b"
| "truthy (Some (JNum n)) = (n \<noteq> 0)"
| "truthy (Some (JStr s)) = (s \<noteq> [])"
| "truthy (Some (JArr _)) = True"
| "truthy (Some (JObj _)) = True"

text \<open>\<^verbatim>\<open>a || b\<close> where \<open>a\<close> was read from a property.\<close>

fun jsOr :: "json option \<Rightarrow> json \<Rightarrow> json" where
  "jsOr None d = d"
| "jsOr (Some v) d = (if truthy (Some v) then v else d)"

subsection \<open>Decimal rendering of a non-negative integer\<close>

definition digitChar :: "nat \<Rightarrow> char" where
  "digitChar d =
     (if d = 0 then CHR ''0'' else if d = 1 then CHR ''1'' else if d = 2 then CHR ''2''
      else if d = 3 then CHR ''3'' else if d = 4 then CHR ''4'' else if d = 5 then CHR ''5''
      else if d = 6 then CHR ''6'' else if d = 7 then CHR ''7'' else if d = 8 then CHR ''8''
      else CHR ''9'')"

function dec :: "nat \<Rightarrow> string" where
  "dec n = (if n < 10 then [digitChar n] else dec (n div 10) @ [digitChar (n mod 10)])"
  by pat_completeness auto
termination
  by (relation "measure id") auto

declare dec.simps [simp del]

subsection \<open>Own properties\<close>

text \<open>
  \<^verbatim>\<open>Object.keys(obj)\<close> paired with \<^verbatim>\<open>obj[k]\<close>: the properties of an object, the indexed
  elements of an array, the indexed characters of a string, nothing for a number or a
  boolean, and a TypeError for \<^verbatim>\<open>null\<close>.
\<close>

definition indexed :: "json list \<Rightarrow> props" where
  "indexed xs = zip (map dec [0..<length xs]) xs"

fun ownEntries :: "json \<Rightarrow> exn + props" where
  "ownEntries JNull = Inl TypeError"
| "ownEntries (JBool _) = Inr []"
| "ownEntries (JNum _) = Inr []"
| "ownEntries (JStr s) = Inr (indexed (map (\<lambda>c. JStr [c]) s))"
| "ownEntries (JArr xs) = Inr (indexed xs)"
| "ownEntries (JObj kvs) = Inr kvs"

text \<open>\<^verbatim>\<open>item.id\<close>: only an object can own the property; reading it off \<^verbatim>\<open>null\<close> throws.\<close>

fun getId :: "json \<Rightarrow> exn + json option" where
  "getId JNull = Inl TypeError"
| "getId (JObj kvs) = Inr (map_of kvs ''id'')"
| "getId _ = Inr None"

subsection \<open>Property writes\<close>

text \<open>
  The names of the members of \<^verbatim>\<open>Object.prototype\<close>, as the runtime provides them. All are
  functions but \<^verbatim>\<open>__proto__\<close>, an accessor whose getter returns the prototype.
\<close>

definition objectPrototypeKeys :: "string list" where
  "objectPrototypeKeys =
     [''constructor'', ''__defineGetter__'', ''__defineSetter__'', ''hasOwnProperty'',
      ''__lookupGetter__'', ''__lookupSetter__'', ''isPrototypeOf'', ''propertyIsEnumerable'',
      ''toString'', ''valueOf'', ''__proto__'', ''toLocaleString'']"

text \<open>
  The assignment \<^verbatim>\<open>acc[k] = v\<close> to an object that started as \<^verbatim>\<open>{}\<close>, given by its own
  properties. For every key but one it creates the property, at the end, or overwrites it
  in place; an inherited function of the same name does not stand in the way. For the key
  \<^verbatim>\<open>__proto__\<close> it calls the inherited setter, which replaces the prototype when \<open>v\<close> is an
  array, an object or \<^verbatim>\<open>null\<close> and does nothing otherwise: no property is created. (Once
  \<^verbatim>\<open>null\<close> has been written the setter is no longer inherited, and a second write of
  \<^verbatim>\<open>__proto__\<close> would create a property. The flattener never makes one: the keys of an
  object are distinct, so each \<^verbatim>\<open>reduce\<close> writes the key directly at most once, and the
  records it hands to \<^verbatim>\<open>Object.assign\<close> were built the same way and own no such key.)
  \<^verbatim>\<open>Object.assign(acc, src)\<close> makes this assignment for every own property of \<open>src\<close>, in
  order.
\<close>

definition putProp :: "string \<Rightarrow> 'v \<Rightarrow> (string \<times> 'v) list \<Rightarrow> (string \<times> 'v) list" where
  "putProp k v acc = (if k = ''__proto__'' then acc else AList.update k v acc)"

definition objectAssign :: "(string \<times> 'v) list \<Rightarrow> (string \<times> 'v) list \<Rightarrow> (string \<times> 'v) list" where
  "objectAssign acc src = fold (\<lambda>kv a. putProp (fst kv) (snd kv) a) src acc"

text \<open>
  A property \<^verbatim>\<open>k: v\<close> written in an object literal after a spread, \<^verbatim>\<open>{...obj, k: v}\<close>: the
  literal defines the property, whatever its name.
\<close>

definition defineProp :: "'k \<Rightarrow> 'v \<Rightarrow> ('k \<times> 'v) list \<Rightarrow> ('k \<times> 'v) list" where
  "defineProp k v obj = AList.update k v obj"

section \<open>The flattener\<close>

text \<open>
  \<^verbatim>\<open>
  const flattenObject = (obj: any, prefix = ''): any => {
    return Object.keys(obj).reduce((acc: any, k) => {
      const pre = prefix.length ? prefix + '.' : '';
      if (typeof obj[k] === 'object' && obj[k] !== null && !Array.isArray(obj[k])) {
        Object.assign(acc, flattenObject(obj[k], pre + k));
      } else {
        acc[pre + k] = obj[k];
      }
      return acc;
    }, {});
  };
  \<close>
  \<open>flattenProps kvs prefix acc\<close> is the \<^verbatim>\<open>reduce\<close> over the properties \<open>kvs\<close> still to be
  visited, with the own properties \<open>acc\<close> of the accumulator; \<open>pre prefix\<close> is the constant
  \<^verbatim>\<open>pre\<close>. The recursive call is made on a plain object only, whose properties are at hand,
  so it is the same loop started on an empty accumulator. The callers read the own
  properties of the result and its \<^verbatim>\<open>id\<close>, which no prototype within reach defines, so the
  result is given by its own properties.
\<close>

definition pre :: "string \<Rightarrow> string" where
  "pre prefix = (if length prefix \<noteq> 0 then prefix @ ''.'' else '''')"

function flattenProps :: "props \<Rightarrow> string \<Rightarrow> props \<Rightarrow> props" where
  "flattenProps [] prefix acc = acc"
| "flattenProps ((k, v) # rest) prefix acc =
     flattenProps rest prefix
       (case v of
          JObj kvs \<Rightarrow> objectAssign acc (flattenProps kvs (pre prefix @ k) [])
        | _ \<Rightarrow> putProp (pre prefix @ k) v acc)"
  by pat_completeness auto
termination
  by (relation "measure (\<lambda>(kvs, prefix, acc). size (JObj kvs))") auto

definition flattenObject :: "json \<Rightarrow> string \<Rightarrow> exn + props" where
  "flattenObject obj prefix =
     (case ownEntries obj of
        Inl e \<Rightarrow> Inl e
      | Inr kvs \<Rightarrow> Inr (flattenProps kvs prefix []))"

section \<open>Ingestion\<close>

subsection \<open>Session state\<close>

text \<open>
  The state cells of the \<^verbatim>\<open>App\<close> component (\<^verbatim>\<open>useState\<close>). \<^verbatim>\<open>filteredData\<close> is recomputed
  from \<open>data\<close> and \<open>searchTerm\<close> by an effect and is not a cell of its own here. A
  \<^verbatim>\<open>DataRecord\<close> is an object: the list of its properties. \<^verbatim>\<open>keyDensity\<close>, declared a
  \<^verbatim>\<open>Record<string, number>\<close>, is the list of its properties too.

  A value met in the density table: a count; or, where the count was started from an
  inherited member of \<^verbatim>\<open>Object.prototype\<close>, a string, \<open>DText m n\<close> being the text of the
  member named \<open>m\<close> followed by \<open>n\<close> characters \<^verbatim>\<open>1\<close>; or the inherited member itself, which a
  read can return but which is never stored.
\<close>

datatype dval = DNum nat | DText string nat | DMember string

datatype view_mode = ListView | IngestView

record app_state =
  data :: "props list"
  allKeys :: "string list"
  keyDensity :: "(string \<times> dval) list"
  selectedIds :: "json list"
  loading :: bool
  searchTerm :: string
  error :: "string option"
  rawInput :: string
  viewMode :: view_mode

definition initialState :: app_state where
  "initialState =
     \<lparr>data = [], allKeys = [], keyDensity = [], selectedIds = [], loading = False,
      searchTerm = '''', error = None, rawInput = '''', viewMode = IngestView\<rparr>"

subsection \<open>Locating the record array\<close>

definition candidates :: "string list" where
  "candidates = [''task_results'', ''data'', ''items'', ''results'', ''records'']"

text \<open>
  The \<^verbatim>\<open>for (const key of candidates)\<close> loop with its \<^verbatim>\<open>break\<close>; the result is
  \<^verbatim>\<open>dataToSet\<close> after the loop, which starts as \<^verbatim>\<open>[]\<close>.
\<close>

fun scanCandidates :: "props \<Rightarrow> string list \<Rightarrow> json list" where
  "scanCandidates obj [] = []"
| "scanCandidates obj (key # keys) =
     (case map_of obj key of
        Some (JArr xs) \<Rightarrow> xs
      | _ \<Rightarrow> scanCandidates obj keys)"

text \<open>\<^verbatim>\<open>dataToSet\<close> when control reaches \<^verbatim>\<open>if (dataToSet.length > 0)\<close>.\<close>

definition locateArray :: "json \<Rightarrow> json list" where
  "locateArray json =
     (case json of
        JArr xs \<Rightarrow> xs
      | JObj obj \<Rightarrow>
          (let dataToSet = scanCandidates obj candidates
           in if length dataToSet = 0 \<and> length (map fst obj) > 0
              then (if length dataToSet = 0
                    then (case find isArray (map snd obj) of
                            Some (JArr xs) \<Rightarrow> xs
                          | _ \<Rightarrow> dataToSet)
                    else dataToSet)
              else dataToSet)
      | _ \<Rightarrow> [])"

subsection \<open>Normalising the items\<close>

text \<open>
  The callback of \<^verbatim>\<open>dataToSet.map\<close>. \<open>now idx\<close> is what \<^verbatim>\<open>Date.now()\<close> reads while the item
  at position \<open>idx\<close> is processed. The spread \<^verbatim>\<open>{...flat, id: v}\<close> copies \<open>flat\<close> and then
  writes \<open>id\<close>.
\<close>

definition genId :: "(nat \<Rightarrow> nat) \<Rightarrow> nat \<Rightarrow> json" where
  "genId now idx = JStr (''gen-'' @ dec idx @ ''-'' @ dec (now idx))"

definition processItem :: "(nat \<Rightarrow> nat) \<Rightarrow> json \<Rightarrow> nat \<Rightarrow> exn + props" where
  "processItem now item idx =
     (case flattenObject item '''' of
        Inl e \<Rightarrow> Inl e
      | Inr flat \<Rightarrow>
          (case getId item of
             Inl e \<Rightarrow> Inl e
           | Inr itemId \<Rightarrow>
               Inr (defineProp ''id''
                      (jsOr itemId (jsOr (map_of flat ''id'') (genId now idx))) flat)))"

fun mapItems :: "(nat \<Rightarrow> nat) \<Rightarrow> json list \<Rightarrow> nat \<Rightarrow> exn + props list" where
  "mapItems now [] idx = Inr []"
| "mapItems now (item # rest) idx =
     (case processItem now item idx of
        Inl e \<Rightarrow> Inl e
      | Inr r \<Rightarrow>
          (case mapItems now rest (Suc idx) of
             Inl e \<Rightarrow> Inl e
           | Inr rs \<Rightarrow> Inr (r # rs)))"

subsection \<open>Key density and key order\<close>

text \<open>
  \<^verbatim>\<open>density[k] || 0\<close>, where \<open>density\<close> started as \<^verbatim>\<open>{}\<close>: the own entry when there is one (a
  positive number and a non-empty string are truthy), else the member of
  \<^verbatim>\<open>Object.prototype\<close> named \<open>k\<close> when there is one (a function and an object are truthy), else
  \<open>0\<close>.
\<close>

definition densityOf :: "(string \<times> dval) list \<Rightarrow> string \<Rightarrow> dval" where
  "densityOf density k =
     (case map_of density k of
        Some v \<Rightarrow> v
      | None \<Rightarrow> (if k \<in> set objectPrototypeKeys then DMember k else DNum 0))"

text \<open>\<^verbatim>\<open>x + 1\<close>: the sum for a number, and for any other operand its text followed by \<^verbatim>\<open>1\<close>.\<close>

fun plusOne :: "dval \<Rightarrow> dval" where
  "plusOne (DNum n) = DNum (n + 1)"
| "plusOne (DText m n) = DText m (n + 1)"
| "plusOne (DMember m) = DText m 1"

text \<open>\<^verbatim>\<open>density[k] = (density[k] || 0) + 1\<close>\<close>

definition bump :: "string \<Rightarrow> (string \<times> dval) list \<Rightarrow> (string \<times> dval) list" where
  "bump k density = putProp k (plusOne (densityOf density k)) density"

definition computeDensity :: "props list \<Rightarrow> (string \<times> dval) list" where
  "computeDensity processed =
     fold (\<lambda>item density. fold bump (map fst item) density) processed []"

text \<open>\<^verbatim>\<open>Array.from(new Set(xs))\<close>: the elements in the order of their first occurrence.\<close>

definition setAdd :: "'a \<Rightarrow> 'a list \<Rightarrow> 'a list" where
  "setAdd x s = (if x \<in> set s then s else s @ [x])"

definition newSet :: "'a list \<Rightarrow> 'a list" where
  "newSet xs = fold setAdd xs []"

definition priority :: "string list" where
  "priority = [''id'', ''status'', ''input_text'', ''input.text'', ''text'', ''generated_sql'',
               ''model_output.cleaned_sql'']"

fun indexOf :: "'a list \<Rightarrow> 'a \<Rightarrow> int" where
  "indexOf [] a = -1"
| "indexOf (x # xs) a =
     (if x = a then 0 else (let i = indexOf xs a in if i = -1 then -1 else i + 1))"

text \<open>
  \<^verbatim>\<open>x - y\<close>: the difference of two numbers; with a string or a function for an operand the
  result is \<^verbatim>\<open>NaN\<close>, which is \<open>None\<close> here.
\<close>

fun dminus :: "dval \<Rightarrow> dval \<Rightarrow> int option" where
  "dminus (DNum m) (DNum n) = Some (int m - int n)"
| "dminus _ _ = None"

text \<open>
  The comparator handed to \<^verbatim>\<open>keys.sort\<close>. \<open>lc a b\<close> stands for \<^verbatim>\<open>a.localeCompare(b)\<close>, which
  the runtime supplies. \<^verbatim>\<open>!==\<close> holds between a number, a string and a function, between
  two different numbers, two different strings and two different functions.
\<close>

definition keyCompare ::
  "(string \<Rightarrow> string \<Rightarrow> int) \<Rightarrow> (string \<times> dval) list \<Rightarrow> string \<Rightarrow> string \<Rightarrow> int option" where
  "keyCompare lc density a b =
     (let pA = indexOf priority a; pB = indexOf priority b
      in if pA \<noteq> -1 \<and> pB \<noteq> -1 then Some (pA - pB)
         else if pA \<noteq> -1 then Some (-1)
         else if pB \<noteq> -1 then Some 1
         else if densityOf density b \<noteq> densityOf density a
              then dminus (densityOf density b) (densityOf density a)
         else Some (lc a b))"

text \<open>
  \<^verbatim>\<open>Array.prototype.sort\<close> reads a comparator's \<^verbatim>\<open>NaN\<close> as \<open>0\<close> (\<open>sortCompare\<close>) and is a stable
  sort. For a comparator that orders the elements every stable sort returns the same
  list; the sort is modelled by insertion from the right, which is stable. Where the
  comparator does not order the elements the language leaves the result to the
  implementation, and no statement below about the key order concerns such a case: in the
  example under C5 the comparator orders the three keys, \<^verbatim>\<open>id\<close> before the other two, which
  it reads as equal.
\<close>

definition sortCompare :: "('a \<Rightarrow> 'a \<Rightarrow> int option) \<Rightarrow> 'a \<Rightarrow> 'a \<Rightarrow> int" where
  "sortCompare cmp x y = (case cmp x y of None \<Rightarrow> 0 | Some v \<Rightarrow> v)"

fun insertBy :: "('a \<Rightarrow> 'a \<Rightarrow> int) \<Rightarrow> 'a \<Rightarrow> 'a list \<Rightarrow> 'a list" where
  "insertBy cmp x [] = [x]"
| "insertBy cmp x (y # ys) = (if cmp x y \<le> 0 then x # y # ys else y # insertBy cmp x ys)"

definition sortBy :: "('a \<Rightarrow> 'a \<Rightarrow> int) \<Rightarrow> 'a list \<Rightarrow> 'a list" where
  "sortBy cmp xs = foldr (insertBy cmp) xs []"

subsection \<open>processIngestedData and its callers\<close>

definition noArrayMessage :: string where
  "noArrayMessage = ''Could not find a valid array of data in the JSON.''"

text \<open>Lines 171 to 209: the branch taken when \<^verbatim>\<open>dataToSet\<close> is not empty.\<close>

definition ingestItems ::
  "(nat \<Rightarrow> nat) \<Rightarrow> (string \<Rightarrow> string \<Rightarrow> int) \<Rightarrow> json list \<Rightarrow> app_state \<Rightarrow> exn + app_state" where
  "ingestItems now lc dataToSet st =
     (case mapItems now dataToSet 0 of
        Inl e \<Rightarrow> Inl e
      | Inr processed \<Rightarrow>
          (let density = computeDensity processed;
               keys = newSet (concat (map (map fst) processed));
               sorted = sortBy (sortCompare (keyCompare lc density)) keys
           in Inr (st\<lparr>data := processed,
                       keyDensity := density,
                       allKeys := filter (\<lambda>k. k \<noteq> ''id'' \<and> k \<noteq> ''status'') sorted,
                       viewMode := ListView,
                       error := None\<rparr>)))"

definition processIngestedData ::
  "(nat \<Rightarrow> nat) \<Rightarrow> (string \<Rightarrow> string \<Rightarrow> int) \<Rightarrow> json \<Rightarrow> app_state \<Rightarrow> exn + app_state" where
  "processIngestedData now lc json st =
     (let dataToSet = locateArray json
      in if length dataToSet > 0
         then ingestItems now lc dataToSet st
         else Inr (st\<lparr>error := Some noArrayMessage\<rparr>))"

text \<open>
  \<open>parse\<close> stands for \<^verbatim>\<open>JSON.parse\<close>. Whatever is thrown between \<^verbatim>\<open>try\<close> and \<^verbatim>\<open>catch\<close>, a
  syntax error of the parser or a type error of the flattener, ends in the same message.
\<close>

definition handlePasteIngest ::
  "(string \<Rightarrow> exn + json) \<Rightarrow> (nat \<Rightarrow> nat) \<Rightarrow> (string \<Rightarrow> string \<Rightarrow> int) \<Rightarrow> app_state \<Rightarrow> app_state" where
  "handlePasteIngest parse now lc st =
     (case parse (rawInput st) of
        Inl e \<Rightarrow> st\<lparr>error := Some ''Invalid JSON text.''\<rparr>
      | Inr json \<Rightarrow>
          (case processIngestedData now lc json st of
             Inl e \<Rightarrow> st\<lparr>error := Some ''Invalid JSON text.''\<rparr>
           | Inr st' \<Rightarrow> st'\<lparr>rawInput := ''''\<rparr>))"

definition handleFileUpload ::
  "(string \<Rightarrow> exn + json) \<Rightarrow> (nat \<Rightarrow> nat) \<Rightarrow> (string \<Rightarrow> string \<Rightarrow> int) \<Rightarrow> string \<Rightarrow> app_state
     \<Rightarrow> app_state" where
  "handleFileUpload parse now lc text st =
     (case parse text of
        Inl e \<Rightarrow> st\<lparr>error := Some ''Invalid JSON file.''\<rparr>
      | Inr json \<Rightarrow>
          (case processIngestedData now lc json st of
             Inl e \<Rightarrow> st\<lparr>error := Some ''Invalid JSON file.''\<rparr>
           | Inr st' \<Rightarrow> st'))"

section \<open>Transform and merge\<close>

text \<open>
  A \<^verbatim>\<open>Map\<close> keyed by record ids, as the list of its entries in insertion order. Keys are
  compared by SameValueZero: primitives by value, arrays and objects by identity. An id
  that is an array or an object in the engine's reply is a fresh value, identical to no
  other, so such keys never match.
\<close>

fun isPrimitive :: "json \<Rightarrow> bool" where
  "isPrimitive (JArr _) = False"
| "isPrimitive (JObj _) = False"
| "isPrimitive _ = True"

fun sameValueZero :: "json option \<Rightarrow> json option \<Rightarrow> bool" where
  "sameValueZero None None = True"
| "sameValueZero (Some a) (Some b) = (isPrimitive a \<and> a = b)"
| "sameValueZero _ _ = False"

type_synonym idmap = "(json option \<times> props) list"

fun mapSet :: "json option \<Rightarrow> props \<Rightarrow> idmap \<Rightarrow> idmap" where
  "mapSet k v [] = [(k, v)]"
| "mapSet k v ((k', v') # m) =
     (if sameValueZero k' k then (k', v) # m else (k', v') # mapSet k v m)"

fun mapGet :: "idmap \<Rightarrow> json option \<Rightarrow> props option" where
  "mapGet [] k = None"
| "mapGet ((k', v') # m) k = (if sameValueZero k' k then Some v' else mapGet m k)"

definition newMap :: "(json option \<times> props) list \<Rightarrow> idmap" where
  "newMap entries = fold (\<lambda>e m. mapSet (fst e) (snd e) m) entries []"

text \<open>\<^verbatim>\<open>d.id\<close> of a record.\<close>

definition recId :: "props \<Rightarrow> json option" where
  "recId d = map_of d ''id''"

text \<open>
  What the POST to \<^verbatim>\<open>/api/transform\<close> comes back with: the request fails, the body holds
  no array under \<^verbatim>\<open>data\<close>, or it holds an array of records. The elements of the array are
  taken to be objects, as the cast to \<^verbatim>\<open>DataRecord\<close> declares; an object is truthy, so
  \<^verbatim>\<open>transformedMap.get(d.id) || d\<close> is the entry whenever there is one.
\<close>

datatype reply = Rejected | NoArray | Records "props list"

text \<open>
  \<^verbatim>\<open>
  if (selectedIds.size === 0 && data.length === 0) return;
  ...
  if (response.data && Array.isArray(response.data.data)) {
    const transformedMap = new Map(response.data.data.map((d: any) => [d.id, d]));
    setData(prev => prev.map(d => (transformedMap.get(d.id) || d) as DataRecord));
    if (selectedIds.size === 0) {
      setData(response.data.data);
    }
  }
  \<close>
  The two \<^verbatim>\<open>setData\<close> calls are applied in order. The records sent to the engine do not
  enter the merge, so the request is not modelled; the reply is a parameter.
\<close>

definition mergeRecord :: "idmap \<Rightarrow> props \<Rightarrow> props" where
  "mergeRecord transformedMap d =
     (case mapGet transformedMap (recId d) of Some n \<Rightarrow> n | None \<Rightarrow> d)"

definition handleTransform :: "reply \<Rightarrow> app_state \<Rightarrow> app_state" where
  "handleTransform rep st =
     (if length (selectedIds st) = 0 \<and> length (data st) = 0 then st
      else (case rep of
              Rejected \<Rightarrow> st\<lparr>loading := False, error := Some ''Transformation failed.''\<rparr>
            | NoArray \<Rightarrow> st\<lparr>loading := False\<rparr>
            | Records out \<Rightarrow>
                (let transformedMap = newMap (map (\<lambda>d. (recId d, d)) out);
                     st1 = st\<lparr>data := map (mergeRecord transformedMap) (data st)\<rparr>;
                     st2 = (if length (selectedIds st) = 0 then st1\<lparr>data := out\<rparr> else st1)
                 in st2\<lparr>loading := False\<rparr>)))"

section \<open>Specification-side notions\<close>

text \<open>
  The definitions of this section do not embed code. They say, in the words of the
  specification, what the code above is compared with.
\<close>

subsection \<open>Dotted paths and leaves\<close>

text \<open>
  A path is the list of the property names from the top down to a value; its dotted form
  joins the names with dots.
\<close>

fun dotted :: "string list \<Rightarrow> string" where
  "dotted [] = ''''"
| "dotted [k] = k"
| "dotted (k # ks) = k @ ''.'' @ dotted ks"

text \<open>
  The leaves of an object in enumeration order, each with its full dotted path: a plain
  object is recursed into with the path extended by its property name, any other value is
  a leaf.
\<close>

function leafPaths :: "props \<Rightarrow> string list \<Rightarrow> props" where
  "leafPaths [] path = []"
| "leafPaths ((k, v) # rest) path =
     (case v of
        JObj kvs \<Rightarrow> leafPaths kvs (path @ [k])
      | _ \<Rightarrow> [(dotted (path @ [k]), v)]) @ leafPaths rest path"
  by pat_completeness auto
termination
  by (relation "measure (\<lambda>(kvs, path). size (JObj kvs))") auto

text \<open>
  The flat record the leaves stand for: a key is mapped to the value of the last leaf, in
  enumeration order, that has the key for its path.
\<close>

definition flatten_spec :: "props \<Rightarrow> string \<rightharpoonup> json" where
  "flatten_spec kvs = map_of (rev (leafPaths kvs []))"

subsection \<open>The record locator\<close>

fun arrayOf :: "json \<Rightarrow> json list option" where
  "arrayOf (JArr xs) = Some xs"
| "arrayOf _ = None"

definition firstSome :: "'a option list \<Rightarrow> 'a option" where
  "firstSome xs = (case List.map_filter id xs of [] \<Rightarrow> None | y # _ \<Rightarrow> Some y)"

text \<open>The first candidate name whose value is an array, and the first array among the values.\<close>

definition firstCandidateArray :: "props \<Rightarrow> json list option" where
  "firstCandidateArray obj =
     firstSome (map (\<lambda>c. case map_of obj c of Some v \<Rightarrow> arrayOf v | None \<Rightarrow> None) candidates)"

definition firstArrayValue :: "props \<Rightarrow> json list option" where
  "firstArrayValue obj = firstSome (map (\<lambda>kv. arrayOf (snd kv)) obj)"

text \<open>\<open>None\<close> is the signal NoArrayFound.\<close>

definition nonEmpty :: "json list option \<Rightarrow> json list option" where
  "nonEmpty found = (case found of Some (x # xs) \<Rightarrow> Some (x # xs) | _ \<Rightarrow> None)"

text \<open>
  The locator as the specification words it: the rules in order, the first match wins,
  and an empty match is NoArrayFound.
\<close>

definition locate_spec :: "json \<Rightarrow> json list option" where
  "locate_spec json =
     (case json of
        JArr xs \<Rightarrow> nonEmpty (Some xs)
      | JObj obj \<Rightarrow>
          (case firstCandidateArray obj of
             Some xs \<Rightarrow> nonEmpty (Some xs)
           | None \<Rightarrow> (if obj \<noteq> [] then nonEmpty (firstArrayValue obj) else None))
      | _ \<Rightarrow> None)"

text \<open>
  The locator with the one change the code asks for: an empty array under a candidate
  name does not end the search, the scan of all values follows.
\<close>

definition locate_amended :: "json \<Rightarrow> json list option" where
  "locate_amended json =
     (case json of
        JArr xs \<Rightarrow> nonEmpty (Some xs)
      | JObj obj \<Rightarrow>
          (case nonEmpty (firstCandidateArray obj) of
             Some xs \<Rightarrow> Some xs
           | None \<Rightarrow> nonEmpty (firstArrayValue obj))
      | _ \<Rightarrow> None)"

subsection \<open>Key density and key order\<close>

text \<open>The number of records that contain key \<open>k\<close>.\<close>

definition recordCount :: "props list \<Rightarrow> string \<Rightarrow> nat" where
  "recordCount recs k = length (filter (\<lambda>r. k \<in> fst ` set r) recs)"

text \<open>
  \<open>keyBefore lc cnt a b\<close>: key \<open>a\<close> may stand before key \<open>b\<close>. Priority keys come first, in
  the order of the priority list; the other keys by descending count, and among equal
  counts by \<open>lc\<close>.
\<close>

definition keyBefore :: "(string \<Rightarrow> string \<Rightarrow> int) \<Rightarrow> (string \<Rightarrow> nat) \<Rightarrow> string \<Rightarrow> string \<Rightarrow> bool" where
  "keyBefore lc cnt a b =
     (if a \<in> set priority \<and> b \<in> set priority then indexOf priority a \<le> indexOf priority b
      else if a \<in> set priority then True
      else if b \<in> set priority then False
      else cnt b < cnt a \<or> (cnt a = cnt b \<and> lc a b \<le> 0))"

text \<open>A comparator that orders the strings: any two are comparable, and the order is transitive.\<close>

definition consistentCompare :: "(string \<Rightarrow> string \<Rightarrow> int) \<Rightarrow> bool" where
  "consistentCompare lc =
     ((\<forall>a b. lc a b \<le> 0 \<or> lc b a \<le> 0) \<and> (\<forall>a b c. lc a b \<le> 0 \<and> lc b c \<le> 0 \<longrightarrow> lc a c \<le> 0))"

text \<open>A comparator for the examples: the order of the strings by their characters.\<close>

definition charOrder :: "string \<Rightarrow> string \<Rightarrow> int" where
  "charOrder a b = (if a = b then 0 else if a < b then -1 else 1)"

subsection \<open>Merging by id\<close>

text \<open>The mapping from id to record that the engine's output defines: the last record with the id.\<close>

definition idToRecord :: "props list \<Rightarrow> json option \<Rightarrow> props option" where
  "idToRecord out k = find (\<lambda>n. sameValueZero (recId n) k) (rev out)"

definition mergeById :: "props list \<Rightarrow> props list \<Rightarrow> props list" where
  "mergeById out prev = map (\<lambda>d. case idToRecord out (recId d) of Some n \<Rightarrow> n | None \<Rightarrow> d) prev"

definition replyRecords :: "reply \<Rightarrow> props list" where
  "replyRecords rep = (case rep of Records out \<Rightarrow> out | _ \<Rightarrow> [])"

section \<open>Properties of property writes\<close>

lemma map_of_putProp:
  "map_of (putProp k v acc) = (if k = ''__proto__'' then map_of acc else (map_of acc)(k \<mapsto> v))"
  by (simp add: putProp_def update_conv')

lemma distinct_putProp: "distinct (map fst acc) \<Longrightarrow> distinct (map fst (putProp k v acc))"
  by (simp add: putProp_def distinct_update)

lemma set_update_subset: "set (AList.update k v acc) \<subseteq> insert (k, v) (set acc)"
  by (induction acc) auto

lemma keys_update: "fst ` set (AList.update k v acc) = insert k (fst ` set acc)"
  by (induction acc) auto

lemma update_fresh: "k \<notin> fst ` set acc \<Longrightarrow> AList.update k v acc = acc @ [(k, v)]"
  by (induction acc) auto

lemma set_putProp: "set (putProp k v acc) \<subseteq> insert (k, v) (set acc)"
  using set_update_subset[of k v acc] by (auto simp: putProp_def)

lemma keys_putProp:
  "fst ` set (putProp k v acc) = (if k = ''__proto__'' then fst ` set acc else insert k (fst ` set acc))"
  by (simp add: putProp_def keys_update)

lemma putProp_fresh:
  "k \<noteq> ''__proto__'' \<Longrightarrow> k \<notin> fst ` set acc \<Longrightarrow> putProp k v acc = acc @ [(k, v)]"
  by (simp add: putProp_def update_fresh)

lemma objectAssign_Nil: "objectAssign acc [] = acc"
  by (simp add: objectAssign_def)

lemma objectAssign_Cons: "objectAssign acc ((k, v) # src) = objectAssign (putProp k v acc) src"
  by (simp add: objectAssign_def)

lemma distinct_objectAssign:
  "distinct (map fst acc) \<Longrightarrow> distinct (map fst (objectAssign acc src))"
  by (induction src arbitrary: acc) (auto simp: objectAssign_Nil objectAssign_Cons distinct_putProp)

lemma set_objectAssign: "set (objectAssign acc src) \<subseteq> set acc \<union> set src"
proof (induction src arbitrary: acc)
  case Nil
  show ?case by (simp add: objectAssign_Nil)
next
  case (Cons kv src)
  obtain k v where kv: "kv = (k, v)" by (cases kv)
  show ?case using Cons.IH[of "putProp k v acc"] set_putProp[of k v acc]
    by (auto simp: kv objectAssign_Cons)
qed

lemma keys_objectAssign:
  "fst ` set (objectAssign acc src) = fst ` set acc \<union> (fst ` set src - {''__proto__''})"
proof (induction src arbitrary: acc)
  case Nil
  show ?case by (simp add: objectAssign_Nil)
next
  case (Cons kv src)
  obtain k v where kv: "kv = (k, v)" by (cases kv)
  show ?case by (auto simp: kv objectAssign_Cons Cons.IH keys_putProp)
qed

lemma map_of_defineProp: "map_of (defineProp k v obj) = (map_of obj)(k \<mapsto> v)"
  by (simp add: defineProp_def update_conv')

lemma distinct_defineProp: "distinct (map fst obj) \<Longrightarrow> distinct (map fst (defineProp k v obj))"
  by (simp add: defineProp_def distinct_update)

section \<open>Properties of the flattener\<close>

declare flattenProps.simps(2) [simp del]

lemma flattenProps_leaf:
  "\<not> isPlainObject v \<Longrightarrow>
     flattenProps ((k, v) # rest) p acc = flattenProps rest p (putProp (pre p @ k) v acc)"
  by (cases v) (simp_all add: flattenProps.simps(2))

lemma flattenProps_object:
  "flattenProps ((k, JObj kvs) # rest) p acc =
     flattenProps rest p (objectAssign acc (flattenProps kvs (pre p @ k) []))"
  by (simp add: flattenProps.simps(2))

lemma distinct_flattenProps:
  "distinct (map fst acc) \<Longrightarrow> distinct (map fst (flattenProps kvs p acc))"
proof (induction kvs p acc rule: flattenProps.induct)
  case (1 p acc)
  then show ?case by simp
next
  case (2 k v rest p acc)
  show ?case
  proof (cases v)
    case (JObj kvs)
    then show ?thesis using 2 by (simp add: flattenProps_object distinct_objectAssign)
  qed (use 2 in \<open>simp_all add: flattenProps_leaf distinct_putProp\<close>)
qed

lemma keys_flattenProps:
  "''__proto__'' \<notin> fst ` set acc \<Longrightarrow> ''__proto__'' \<notin> fst ` set (flattenProps kvs p acc)"
proof (induction kvs p acc rule: flattenProps.induct)
  case (1 p acc)
  then show ?case by simp
next
  case (2 k v rest p acc)
  show ?case
  proof (cases v)
    case (JObj kvs)
    then show ?thesis using 2 by (simp add: flattenProps_object keys_objectAssign)
  qed (use 2 in \<open>simp_all add: flattenProps_leaf keys_putProp\<close>)
qed

lemma values_flattenProps:
  "\<forall>v \<in> snd ` set acc. \<not> isPlainObject v \<Longrightarrow>
     \<forall>v \<in> snd ` set (flattenProps kvs p acc). \<not> isPlainObject v"
proof (induction kvs p acc rule: flattenProps.induct)
  case (1 p acc)
  then show ?case by simp
next
  case (2 k v rest p acc)
  let ?acc = "case v of
                JObj kvs \<Rightarrow> objectAssign acc (flattenProps kvs (pre p @ k) [])
              | _ \<Rightarrow> putProp (pre p @ k) v acc"
  have step: "flattenProps ((k, v) # rest) p acc = flattenProps rest p ?acc"
    by (simp add: flattenProps.simps(2))
  have "\<forall>w \<in> snd ` set ?acc. \<not> isPlainObject w"
  proof (cases "isPlainObject v")
    case True
    then obtain kvs where v: "v = JObj kvs" by (cases v) simp_all
    have "\<forall>w \<in> snd ` set (flattenProps kvs (pre p @ k) []). \<not> isPlainObject w"
      using "2.IH"(1)[OF v] by simp
    then show ?thesis
      using set_objectAssign[of acc "flattenProps kvs (pre p @ k) []"] "2.prems"
      by (fastforce simp: v)
  next
    case False
    then have "?acc = putProp (pre p @ k) v acc" by (cases v) simp_all
    then show ?thesis
      using set_putProp[of "pre p @ k" v acc] "2.prems" False by fastforce
  qed
  from "2.IH"(2)[OF this] show ?case by (simp only: step)
qed

lemma flattenObject_JObj: "flattenObject (JObj kvs) p = Inr (flattenProps kvs p [])"
  by (simp add: flattenObject_def)

lemma flattenObject_total: "obj \<noteq> JNull \<Longrightarrow> \<exists>flat. flattenObject obj p = Inr flat"
  by (cases obj) (simp_all add: flattenObject_def)

text \<open>
  Whatever is flattened, the result has distinct keys, owns no \<^verbatim>\<open>__proto__\<close>, and none of
  its values is a plain object.
\<close>

lemma flattenObject_result:
  assumes "flattenObject obj p = Inr flat"
  shows "distinct (map fst flat) \<and> ''__proto__'' \<notin> fst ` set flat
       \<and> (\<forall>v \<in> snd ` set flat. \<not> isPlainObject v)"
proof (cases "ownEntries obj")
  case (Inl e)
  with assms show ?thesis by (simp add: flattenObject_def)
next
  case (Inr kvs)
  with assms have flat: "flat = flattenProps kvs p []" by (simp add: flattenObject_def)
  show ?thesis unfolding flat
    using distinct_flattenProps[of "[]" kvs p] keys_flattenProps[of "[]" kvs p]
      values_flattenProps[of "[]" kvs p]
    by simp
qed

lemmas flatten_eval =
  flattenObject_JObj flattenProps_object flattenProps_leaf pre_def putProp_def objectAssign_def

subsection \<open>Where the flattener follows the rule of the specification\<close>

lemma dotted_snoc: "path \<noteq> [] \<Longrightarrow> dotted (path @ [k]) = dotted path @ ''.'' @ k"
  by (induction path rule: dotted.induct) simp_all

lemma dot_not_proto: "p @ ''.'' @ k \<noteq> ''__proto__''"
proof
  assume eq: "p @ ''.'' @ k = ''__proto__''"
  have "CHR ''.'' \<in> set (p @ ''.'' @ k)" by simp
  then have "CHR ''.'' \<in> set ''__proto__''" by (simp only: eq)
  then show False by simp
qed

lemma map_of_rev_distinct: "distinct (map fst xs) \<Longrightarrow> map_of (rev xs) = map_of xs"
  by (subst map_of_inject_set) (simp_all add: rev_map[symmetric])

lemma map_add_snoc:
  "(map_of acc)(k \<mapsto> v) ++ map_of (rev ls) = map_of acc ++ map_of (rev ((k, v) # ls))"
  by (rule ext) (simp add: map_add_def split: option.splits)

lemma map_of_objectAssign:
  "''__proto__'' \<notin> fst ` set src \<Longrightarrow>
     map_of (objectAssign acc src) = map_of acc ++ map_of (rev src)"
proof (induction src arbitrary: acc)
  case Nil
  show ?case by (simp add: objectAssign_Nil)
next
  case (Cons kv src)
  obtain k v where kv: "kv = (k, v)" by (cases kv)
  from Cons.prems have k: "k \<noteq> ''__proto__''" and src: "''__proto__'' \<notin> fst ` set src"
    by (auto simp: kv)
  have "map_of (objectAssign acc (kv # src)) = map_of (putProp k v acc) ++ map_of (rev src)"
    by (simp only: kv objectAssign_Cons Cons.IH[OF src])
  also have "\<dots> = (map_of acc)(k \<mapsto> v) ++ map_of (rev src)"
    using k by (simp add: map_of_putProp)
  also have "\<dots> = map_of acc ++ map_of (rev (kv # src))"
    by (simp only: kv map_add_snoc)
  finally show ?case .
qed

lemma map_of_assign_flat:
  "map_of (objectAssign acc (flattenProps kvs p [])) = map_of acc ++ map_of (flattenProps kvs p [])"
  using keys_flattenProps[of "[]" kvs p] distinct_flattenProps[of "[]" kvs p]
  by (simp add: map_of_objectAssign map_of_rev_distinct)

lemma leafPaths_object:
  "leafPaths ((k, JObj kvs) # rest) path = leafPaths kvs (path @ [k]) @ leafPaths rest path"
  by simp

lemma leafPaths_leaf:
  "\<not> isPlainObject v \<Longrightarrow>
     leafPaths ((k, v) # rest) path = (dotted (path @ [k]), v) # leafPaths rest path"
  by (cases v) simp_all

declare leafPaths.simps(2) [simp del]

text \<open>Below the top, where the prefix is the dotted path and is not empty.\<close>

lemma map_of_flattenProps_nested:
  "path \<noteq> [] \<Longrightarrow> p \<noteq> '''' \<Longrightarrow> p = dotted path \<Longrightarrow>
     map_of (flattenProps kvs p acc) = map_of acc ++ map_of (rev (leafPaths kvs path))"
proof (induction kvs p acc arbitrary: path rule: flattenProps.induct)
  case (1 p acc)
  show ?case by simp
next
  case (2 k v rest p acc)
  let ?q = "dotted (path @ [k])"
  from "2.prems" have q: "pre p @ k = ?q" by (simp add: pre_def dotted_snoc)
  from "2.prems" have q': "?q = p @ ''.'' @ k" by (simp add: dotted_snoc)
  show ?case
  proof (cases "isPlainObject v")
    case True
    then obtain kvs where v: "v = JObj kvs" by (cases v) simp_all
    let ?acc = "objectAssign acc (flattenProps kvs ?q [])"
    have "?q \<noteq> ''''" using q' by simp
    with "2.IH"(1)[OF v, of "path @ [k]"] q
    have inner: "map_of (flattenProps kvs ?q []) = map_of (rev (leafPaths kvs (path @ [k])))"
      by simp
    have acc: "map_of ?acc = map_of acc ++ map_of (rev (leafPaths kvs (path @ [k])))"
      by (simp only: map_of_assign_flat inner)
    have "map_of (flattenProps rest p ?acc) = map_of ?acc ++ map_of (rev (leafPaths rest path))"
      using "2.IH"(2)[OF "2.prems"] by (simp add: v q)
    then have "map_of (flattenProps ((k, v) # rest) p acc)
        = (map_of acc ++ map_of (rev (leafPaths kvs (path @ [k]))))
            ++ map_of (rev (leafPaths rest path))"
      by (simp only: v flattenProps_object q acc)
    also have "\<dots> = map_of acc ++ map_of (rev (leafPaths ((k, v) # rest) path))"
      by (simp only: v leafPaths_object rev_append map_of_append map_add_assoc)
    finally show ?thesis .
  next
    case False
    let ?acc = "putProp ?q v acc"
    have "?q \<noteq> ''__proto__''" unfolding q' by (rule dot_not_proto)
    then have acc: "map_of ?acc = (map_of acc)(?q \<mapsto> v)" by (simp add: map_of_putProp)
    have "map_of (flattenProps rest p ?acc) = map_of ?acc ++ map_of (rev (leafPaths rest path))"
      using "2.IH"(2)[OF "2.prems"] False by (cases v) (simp_all add: q)
    then have "map_of (flattenProps ((k, v) # rest) p acc)
        = (map_of acc)(?q \<mapsto> v) ++ map_of (rev (leafPaths rest path))"
      by (simp only: flattenProps_leaf[OF False] q acc)
    also have "\<dots> = map_of acc ++ map_of (rev (leafPaths ((k, v) # rest) path))"
      by (simp only: leafPaths_leaf[OF False] map_add_snoc)
    finally show ?thesis .
  qed
qed

text \<open>
  At the top. If no leaf at the top is named \<^verbatim>\<open>__proto__\<close> and no plain object at the top is
  named by the empty string, the flattener returns the flat record of the
  specification: every leaf stands under its full dotted path, and of two leaves with the
  same path the later one stays.
\<close>

lemma map_of_flattenProps_top:
  "\<forall>kv \<in> set kvs. (if isPlainObject (snd kv) then fst kv \<noteq> '''' else fst kv \<noteq> ''__proto__'') \<Longrightarrow>
     map_of (flattenProps kvs '''' acc) = map_of acc ++ map_of (rev (leafPaths kvs []))"
proof (induction kvs arbitrary: acc)
  case Nil
  show ?case by simp
next
  case (Cons kv kvs)
  obtain k v where kv: "kv = (k, v)" by (cases kv)
  from Cons.prems have tl: "\<forall>kv \<in> set kvs.
      (if isPlainObject (snd kv) then fst kv \<noteq> '''' else fst kv \<noteq> ''__proto__'')" by simp
  have pre: "pre '''' @ k = k" by (simp add: pre_def)
  show ?case
  proof (cases "isPlainObject v")
    case True
    then obtain kvs' where v: "v = JObj kvs'" by (cases v) simp_all
    from Cons.prems True have k: "k \<noteq> ''''" by (simp add: kv)
    let ?acc = "objectAssign acc (flattenProps kvs' k [])"
    have inner: "map_of (flattenProps kvs' k []) = map_of (rev (leafPaths kvs' ([] @ [k])))"
      using map_of_flattenProps_nested[of "[k]" k kvs' "[]"] k by simp
    have acc: "map_of ?acc = map_of acc ++ map_of (rev (leafPaths kvs' ([] @ [k])))"
      by (simp only: map_of_assign_flat inner)
    have "map_of (flattenProps (kv # kvs) '''' acc)
        = (map_of acc ++ map_of (rev (leafPaths kvs' ([] @ [k]))))
            ++ map_of (rev (leafPaths kvs []))"
      by (simp only: kv v flattenProps_object pre Cons.IH[OF tl] acc)
    also have "\<dots> = map_of acc ++ map_of (rev (leafPaths (kv # kvs) []))"
      by (simp only: kv v leafPaths_object rev_append map_of_append map_add_assoc)
    finally show ?thesis .
  next
    case False
    with Cons.prems have k: "k \<noteq> ''__proto__''" by (simp add: kv)
    then have acc: "map_of (putProp k v acc) = (map_of acc)(k \<mapsto> v)"
      by (simp add: map_of_putProp)
    have "map_of (flattenProps (kv # kvs) '''' acc)
        = (map_of acc)(k \<mapsto> v) ++ map_of (rev (leafPaths kvs []))"
      by (simp only: kv flattenProps_leaf[OF False] pre Cons.IH[OF tl] acc)
    also have "\<dots> = map_of acc ++ map_of (rev (leafPaths (kv # kvs) []))"
      using leafPaths_leaf[OF False, of k kvs "[]"]
      by (simp only: kv map_add_snoc append_Nil dotted.simps)
    finally show ?thesis .
  qed
qed

lemma flattenObject_follows_spec:
  assumes "\<forall>kv \<in> set kvs.
             (if isPlainObject (snd kv) then fst kv \<noteq> '''' else fst kv \<noteq> ''__proto__'')"
  shows "\<exists>flat. flattenObject (JObj kvs) '''' = Inr flat \<and> map_of flat = flatten_spec kvs"
  using map_of_flattenProps_top[OF assms, of "[]"]
  by (simp add: flattenObject_JObj flatten_spec_def)

text \<open>
  C1. The flattener does not store every leaf under its full dotted path. A leaf whose
  path is \<^verbatim>\<open>__proto__\<close> is written to the accumulator by assignment, which reaches the
  inherited setter and creates no property: the leaf is missing from the result. And below
  a top-level property named by the empty string the prefix is empty again, so the leaf
  \<^verbatim>\<open>.x\<close> is written under \<^verbatim>\<open>x\<close> and overwrites the different leaf \<^verbatim>\<open>x\<close>. The leaves that the
  rule of the specification gives are stated next to each result.
\<close>

theorem flattenObject_drops_proto:
  "flattenObject (JObj [(''__proto__'', JNum 5), (''a'', JNum 1)]) '''' = Inr [(''a'', JNum 1)]
   \<and> leafPaths [(''__proto__'', JNum 5), (''a'', JNum 1)] []
       = [(''__proto__'', JNum 5), (''a'', JNum 1)]
   \<and> flattenObject (JObj [(''x'', JNum 1), ('''', JObj [(''x'', JNum 2)])]) ''''
       = Inr [(''x'', JNum 2)]
   \<and> leafPaths [(''x'', JNum 1), ('''', JObj [(''x'', JNum 2)])] []
       = [(''x'', JNum 1), (''.x'', JNum 2)]"
  by (simp add: flatten_eval leafPaths_object leafPaths_leaf)

text \<open>The example of the specification, and a collision of two paths with the same dotted form.\<close>

lemma flattenObject_example:
  "flattenObject (JObj [(''id'', JStr ''r1''), (''a'', JObj [(''b'', JNum 2)])]) ''''
     = Inr [(''id'', JStr ''r1''), (''a.b'', JNum 2)]"
  by (simp add: flatten_eval)

lemma flattenObject_collision:
  "flattenObject (JObj [(''a.b'', JNum 1), (''a'', JObj [(''b'', JNum 2)])]) ''''
     = Inr [(''a.b'', JNum 2)]"
  by (simp add: flatten_eval)

subsection \<open>Records that are flat already\<close>

lemma flattenProps_flat:
  "distinct (map fst (acc @ kvs)) \<Longrightarrow> \<forall>v \<in> snd ` set kvs. \<not> isPlainObject v
     \<Longrightarrow> ''__proto__'' \<notin> fst ` set kvs
     \<Longrightarrow> flattenProps kvs '''' acc = acc @ kvs"
proof (induction kvs arbitrary: acc)
  case Nil
  show ?case by simp
next
  case (Cons kv kvs)
  obtain k v where kv: "kv = (k, v)" by (cases kv)
  from Cons.prems have fresh: "k \<notin> fst ` set acc" and nobj: "\<not> isPlainObject v"
    and k: "k \<noteq> ''__proto__''"
    by (auto simp: kv)
  have step: "flattenProps (kv # kvs) '''' acc = flattenProps kvs '''' (acc @ [(k, v)])"
    using nobj by (simp add: kv flattenProps_leaf pre_def putProp_fresh[OF k fresh])
  have "flattenProps kvs '''' (acc @ [(k, v)]) = (acc @ [(k, v)]) @ kvs"
    using Cons.prems by (intro Cons.IH) (auto simp: kv)
  with step show ?case by (simp add: kv)
qed

text \<open>
  A record with no plain object among its values and no key \<^verbatim>\<open>__proto__\<close> is returned as it
  is, and flattening the flattened form of any value changes nothing.
\<close>

lemma flattenObject_flat:
  assumes "distinct (map fst r)" "\<forall>v \<in> snd ` set r. \<not> isPlainObject v"
    "''__proto__'' \<notin> fst ` set r"
  shows "flattenObject (JObj r) '''' = Inr r"
  using flattenProps_flat[of "[]" r] assms by (simp add: flattenObject_JObj)

lemma flattenObject_twice:
  assumes "flattenObject x p = Inr flat"
  shows "flattenObject (JObj flat) '''' = Inr flat"
  using flattenObject_result[OF assms] by (intro flattenObject_flat) simp_all

text \<open>
  C8. A record that is flat already is not always returned as it is: the flat record
  \<^verbatim>\<open>{"__proto__": 5, "a": 1}\<close> loses its first property, for the reason given under C1.
\<close>

theorem flattenObject_flat_proto:
  "distinct (map fst [(''__proto__'', JNum 5), (''a'', JNum 1)])
   \<and> list_all (\<lambda>kv. \<not> isPlainObject (snd kv)) [(''__proto__'', JNum 5), (''a'', JNum 1)]
   \<and> flattenObject (JObj [(''__proto__'', JNum 5), (''a'', JNum 1)]) ''''
       \<noteq> Inr [(''__proto__'', JNum 5), (''a'', JNum 1)]"
  by (simp add: flatten_eval)

text \<open>
  C9. The flattener returns a record for an object, an array, a string, a number and a
  boolean (\<open>flattenObject_total\<close>), but not for \<^verbatim>\<open>null\<close>: \<^verbatim>\<open>Object.keys(null)\<close> throws, and
  an ingestion whose array holds a \<^verbatim>\<open>null\<close> item ends in the handler's \<^verbatim>\<open>catch\<close>.
\<close>

theorem flattenObject_null:
  "flattenObject JNull prefix = Inl TypeError
   \<and> processIngestedData now lc (JArr [JNull]) st = Inl TypeError"
  by (simp add: flattenObject_def processIngestedData_def locateArray_def ingestItems_def
      processItem_def)

section \<open>Properties of the record locator\<close>

lemma firstSome_simps:
  "firstSome [] = None"
  "firstSome (None # xs) = firstSome xs"
  "firstSome (Some y # xs) = Some y"
  by (simp_all add: firstSome_def List.map_filter_simps)

lemma scanCandidates_firstSome:
  "scanCandidates obj cs =
     (case firstSome (map (\<lambda>c. case map_of obj c of Some v \<Rightarrow> arrayOf v | None \<Rightarrow> None) cs) of
        Some xs \<Rightarrow> xs
      | None \<Rightarrow> [])"
proof (induction cs)
  case Nil
  show ?case by (simp add: firstSome_simps)
next
  case (Cons c cs)
  show ?case
  proof (cases "map_of obj c")
    case None
    with Cons show ?thesis by (simp add: firstSome_simps)
  next
    case (Some v)
    with Cons show ?thesis by (cases v) (simp_all add: firstSome_simps)
  qed
qed

lemma find_isArray_firstSome:
  "(case find isArray (map snd obj) of Some (JArr xs) \<Rightarrow> xs | _ \<Rightarrow> d) =
     (case firstSome (map (\<lambda>kv. arrayOf (snd kv)) obj) of Some xs \<Rightarrow> xs | None \<Rightarrow> d)"
proof (induction obj)
  case Nil
  show ?case by (simp add: firstSome_simps)
next
  case (Cons kv obj)
  then show ?case by (cases "snd kv") (simp_all add: firstSome_simps)
qed

lemma locateArray_JObj:
  "locateArray (JObj obj) =
     (case nonEmpty (firstCandidateArray obj) of
        Some xs \<Rightarrow> xs
      | None \<Rightarrow> (case firstArrayValue obj of Some xs \<Rightarrow> xs | None \<Rightarrow> []))"
proof (cases obj)
  case Nil
  then show ?thesis
    by (simp add: locateArray_def firstCandidateArray_def firstArrayValue_def nonEmpty_def
        candidates_def firstSome_simps)
next
  case (Cons kv rest)
  have fb: "(case find isArray (map snd obj) of Some (JArr xs) \<Rightarrow> xs | _ \<Rightarrow> []) =
     (case firstArrayValue obj of Some xs \<Rightarrow> xs | None \<Rightarrow> [])"
    unfolding firstArrayValue_def by (rule find_isArray_firstSome)
  have sc: "scanCandidates obj candidates =
     (case firstCandidateArray obj of Some xs \<Rightarrow> xs | None \<Rightarrow> [])"
    unfolding firstCandidateArray_def by (rule scanCandidates_firstSome)
  have ne: "obj \<noteq> []" using Cons by simp
  show ?thesis
  proof (cases "firstCandidateArray obj")
    case None
    with sc fb ne show ?thesis by (simp add: locateArray_def nonEmpty_def)
  next
    case (Some xs)
    with sc fb ne show ?thesis by (cases xs) (simp_all add: locateArray_def nonEmpty_def)
  qed
qed

lemma locate_amended_locateArray:
  "locate_amended json = (if locateArray json = [] then None else Some (locateArray json))"
proof (cases json)
  case (JArr xs)
  then show ?thesis by (cases xs) (simp_all add: locate_amended_def locateArray_def nonEmpty_def)
next
  case (JObj obj)
  show ?thesis
  proof (cases "nonEmpty (firstCandidateArray obj)")
    case None
    then show ?thesis
      by (simp add: JObj locate_amended_def locateArray_JObj nonEmpty_def
          split: option.splits list.splits)
  next
    case (Some xs)
    then have "xs \<noteq> []" by (auto simp: nonEmpty_def split: option.splits list.splits)
    with Some show ?thesis by (simp add: JObj locate_amended_def locateArray_JObj)
  qed
qed (simp_all add: locate_amended_def locateArray_def)

text \<open>
  C2, as the code has it. An array is used directly. In an object, the first candidate
  name whose value is an array is used when that array is not empty; when no candidate
  holds an array, or the first that does holds an empty one, the first array among the
  object's values in enumeration order is used. NoArrayFound is signalled when no array
  is found or the array arrived at is empty, and for every input that is neither an
  array nor an object.
\<close>

theorem processIngestedData_locate:
  "processIngestedData now lc json st =
     (case locate_amended json of
        Some items \<Rightarrow> ingestItems now lc items st
      | None \<Rightarrow> Inr (st\<lparr>error := Some noArrayMessage\<rparr>))"
  by (simp add: processIngestedData_def locate_amended_locateArray)

lemma locate_amended_example:
  "locate_amended (JObj [(''foo'', JArr [JNum 1]), (''data'', JArr [])]) = Some [JNum 1]"
  by (simp add: locate_amended_def firstCandidateArray_def firstArrayValue_def nonEmpty_def
      candidates_def firstSome_simps)

theorem processIngestedData_locate_witness:
  "processIngestedData (\<lambda>i. 0) charOrder (JObj [(''foo'', JArr [JNum 1]), (''data'', JArr [])])
      initialState
     = ingestItems (\<lambda>i. 0) charOrder [JNum 1] initialState
   \<and> processIngestedData (\<lambda>i. 0) charOrder (JObj [(''a'', JNum 1)]) initialState
     = Inr (initialState\<lparr>error := Some noArrayMessage\<rparr>)"
  using processIngestedData_locate[of "\<lambda>i. 0" charOrder
          "JObj [(''foo'', JArr [JNum 1]), (''data'', JArr [])]" initialState]
        processIngestedData_locate[of "\<lambda>i. 0" charOrder "JObj [(''a'', JNum 1)]" initialState]
  by (simp add: locate_amended_example)
    (simp add: locate_amended_def firstCandidateArray_def firstArrayValue_def nonEmpty_def
      candidates_def firstSome_simps)

text \<open>
  C2 as worded fails on \<^verbatim>\<open>{"foo": [1], "data": []}\<close>: the candidate \<^verbatim>\<open>data\<close> holds an
  array, an empty one, so the worded rules signal NoArrayFound; the code goes on to scan
  the values and ingests \<^verbatim>\<open>[1]\<close>.
\<close>

theorem locate_spec_counterexample:
  "locate_spec (JObj [(''foo'', JArr [JNum 1]), (''data'', JArr [])]) = None
   \<and> locateArray (JObj [(''foo'', JArr [JNum 1]), (''data'', JArr [])]) = [JNum 1]"
  by (simp add: locate_spec_def locateArray_def firstCandidateArray_def nonEmpty_def
      candidates_def firstSome_simps)


section \<open>Properties of the normaliser\<close>

subsection \<open>Synthesised ids\<close>

lemma dec_digit: "n < 10 \<Longrightarrow> dec n = [digitChar n]"
  by (simp add: dec.simps)

lemma dec_step: "\<not> n < 10 \<Longrightarrow> dec n = dec (n div 10) @ [digitChar (n mod 10)]"
  by (subst dec.simps) simp

lemma dec_0: "dec 0 = ''0''"
  by (simp add: dec_digit digitChar_def)

lemma dec_1: "dec (Suc 0) = ''1''"
  by (simp add: dec_digit digitChar_def)

lemma digitChar_not_dash: "digitChar d \<noteq> CHR ''-''"
  by (simp add: digitChar_def)

lemma digitChar_code: "d < 10 \<Longrightarrow> (of_char (digitChar d) :: nat) = 48 + d"
  by (simp add: digitChar_def)

lemma digitChar_inj:
  assumes "a < 10" "b < 10" "digitChar a = digitChar b"
  shows "a = b"
proof -
  have "(of_char (digitChar a) :: nat) = of_char (digitChar b)"
    by (simp only: assms(3))
  then have "48 + a = 48 + b"
    by (simp only: digitChar_code[OF assms(1)] digitChar_code[OF assms(2)])
  then show ?thesis by simp
qed

lemma dec_not_Nil: "dec n \<noteq> []"
  by (subst dec.simps) simp

lemma dec_no_dash: "CHR ''-'' \<notin> set (dec n)"
proof (induction n rule: dec.induct)
  case (1 n)
  show ?case
  proof (cases "n < 10")
    case True
    then show ?thesis by (simp add: dec_digit digitChar_not_dash[symmetric])
  next
    case False
    with 1 show ?thesis using digitChar_not_dash[of "n mod 10"] by (auto simp: dec_step)
  qed
qed

lemma dec_inj: "dec a = dec b \<Longrightarrow> a = b"
proof (induction a arbitrary: b rule: dec.induct)
  case (1 n)
  show ?case
  proof (cases "n < 10")
    case True
    note n = this
    show ?thesis
    proof (cases "b < 10")
      case True
      with n 1(2) show ?thesis by (simp add: dec_digit digitChar_inj)
    next
      case False
      with n 1(2) have "dec (b div 10) = []" by (simp add: dec_digit dec_step)
      then show ?thesis using dec_not_Nil by blast
    qed
  next
    case False
    note n = this
    show ?thesis
    proof (cases "b < 10")
      case True
      with n 1(2) have "dec (n div 10) = []" by (simp add: dec_digit dec_step)
      then show ?thesis using dec_not_Nil by blast
    next
      case False
      with n 1(2) have e1: "dec (n div 10) = dec (b div 10)"
        and e2: "digitChar (n mod 10) = digitChar (b mod 10)" by (auto simp: dec_step)
      from 1(1)[OF n e1] have "n div 10 = b div 10" .
      moreover from e2 have "n mod 10 = b mod 10" by (intro digitChar_inj) auto
      ultimately show ?thesis by (metis div_mult_mod_eq)
    qed
  qed
qed

lemma append_dash_eq:
  assumes "CHR ''-'' \<notin> set xs" "CHR ''-'' \<notin> set ys" "xs @ CHR ''-'' # r = ys @ CHR ''-'' # s"
  shows "xs = ys"
proof -
  have "takeWhile (\<lambda>c. c \<noteq> CHR ''-'') (xs @ CHR ''-'' # r) = xs"
    using assms(1) by (induction xs) auto
  moreover have "takeWhile (\<lambda>c. c \<noteq> CHR ''-'') (ys @ CHR ''-'' # s) = ys"
    using assms(2) by (induction ys) auto
  ultimately show ?thesis using assms(3) by simp
qed

lemma genId_inj:
  assumes "genId now i = genId now' j"
  shows "i = j"
proof -
  from assms have "dec i @ CHR ''-'' # dec (now i) = dec j @ CHR ''-'' # dec (now' j)"
    by (simp add: genId_def)
  then have "dec i = dec j"
    by (rule append_dash_eq[OF dec_no_dash dec_no_dash])
  then show ?thesis by (rule dec_inj)
qed

subsection \<open>The id of a processed item\<close>

lemma recId_defineProp: "recId (defineProp ''id'' v flat) = Some v"
  by (simp add: recId_def map_of_defineProp)

lemma processItem_recId:
  assumes "processItem now item idx = Inr r"
  shows "\<exists>itemId flat. getId item = Inr itemId \<and> flattenObject item '''' = Inr flat
           \<and> r = defineProp ''id'' (jsOr itemId (jsOr (map_of flat ''id'') (genId now idx))) flat
           \<and> recId r = Some (jsOr itemId (jsOr (map_of flat ''id'') (genId now idx)))"
  using assms by (auto simp: processItem_def recId_defineProp split: sum.splits)

lemma mapItems_nth:
  "mapItems now items n = Inr recs \<Longrightarrow>
     length recs = length items
     \<and> (\<forall>j < length items. processItem now (items ! j) (n + j) = Inr (recs ! j))"
proof (induction items arbitrary: n recs)
  case Nil
  then show ?case by simp
next
  case (Cons item rest)
  from Cons.prems obtain r rs where r: "processItem now item n = Inr r"
    and rs: "mapItems now rest (Suc n) = Inr rs" and recs: "recs = r # rs"
    by (auto split: sum.splits)
  from Cons.IH[OF rs] have len: "length rs = length rest"
    and nth: "\<forall>j < length rest. processItem now (rest ! j) (Suc n + j) = Inr (rs ! j)" by auto
  show ?case
  proof (intro conjI allI impI)
    show "length recs = length (item # rest)" using len recs by simp
  next
    fix j assume "j < length (item # rest)"
    then show "processItem now ((item # rest) ! j) (n + j) = Inr (recs ! j)"
      using r nth recs by (cases j) auto
  qed
qed

text \<open>
  When no item has a truthy id, neither on the raw item nor in its flattened form, every id
  is synthesised, and the ids of the pass are pairwise distinct.
\<close>

lemma synthesised_ids_distinct:
  assumes run: "mapItems now items 0 = Inr recs"
    and none: "\<forall>item \<in> set items. \<forall>itemId flat. getId item = Inr itemId
                 \<longrightarrow> flattenObject item '''' = Inr flat
                 \<longrightarrow> \<not> truthy itemId \<and> \<not> truthy (map_of flat ''id'')"
  shows "distinct (map recId recs) \<and> (\<forall>j < length recs. recId (recs ! j) = Some (genId now j))"
proof -
  from mapItems_nth[OF run] have len: "length recs = length items"
    and nth: "\<forall>j < length items. processItem now (items ! j) (0 + j) = Inr (recs ! j)" by auto
  have ids: "recId (recs ! j) = Some (genId now j)" if j: "j < length recs" for j
  proof -
    from nth j len have "processItem now (items ! j) j = Inr (recs ! j)" by simp
    from processItem_recId[OF this] obtain itemId flat where
      g: "getId (items ! j) = Inr itemId" and f: "flattenObject (items ! j) '''' = Inr flat"
      and i: "recId (recs ! j) = Some (jsOr itemId (jsOr (map_of flat ''id'') (genId now j)))"
      by blast
    from j len have "items ! j \<in> set items" by simp
    from none[rule_format, OF this g f]
    have "\<not> truthy itemId" "\<not> truthy (map_of flat ''id'')" by simp_all
    then have "jsOr itemId (jsOr (map_of flat ''id'') (genId now j)) = genId now j"
      by (cases itemId; cases "map_of flat ''id''") simp_all
    with i show ?thesis by simp
  qed
  have "distinct (map recId recs)"
    unfolding distinct_conv_nth
  proof (intro allI impI)
    fix i j assume "i < length (map recId recs)" "j < length (map recId recs)" "i \<noteq> j"
    then show "map recId recs ! i \<noteq> map recId recs ! j"
      using ids[of i] ids[of j] genId_inj[of now i now j] by auto
  qed
  with ids show ?thesis by blast
qed

text \<open>A truthy id on the raw item is kept; failing that, a truthy id of the flattened form.\<close>

lemma truthy_id_kept:
  assumes "processItem now item idx = Inr r" "getId item = Inr (Some v)" "truthy (Some v)"
  shows "recId r = Some v"
  using processItem_recId[OF assms(1)] assms(2,3) by auto

lemma flat_id_kept:
  assumes "processItem now item idx = Inr r" "getId item = Inr itemId" "\<not> truthy itemId"
    "flattenObject item '''' = Inr flat" "map_of flat ''id'' = Some v" "truthy (Some v)"
  shows "recId r = Some v"
  using processItem_recId[OF assms(1)] assms(2-6) by (cases itemId) auto

lemma flat_id_example:
  "processItem now (JObj [('''', JObj [(''id'', JNum 7)])]) idx = Inr [(''id'', JNum 7)]"
  by (simp add: processItem_def flatten_eval defineProp_def)

text \<open>
  C3. The id of the raw item is not always kept: the test is for truthiness, so an item
  whose id is the number 0 loses it to a synthesised one. (The empty string, \<^verbatim>\<open>false\<close> and
  \<^verbatim>\<open>null\<close> fare the same.)
\<close>

theorem processItem_id_zero:
  "processItem now (JObj [(''id'', JNum 0), (''x'', JNum 5)]) 0
     = Inr [(''id'', JStr (''gen-0-'' @ dec (now 0))), (''x'', JNum 5)]"
  by (simp add: processItem_def flatten_eval defineProp_def genId_def dec_0)

subsection \<open>The example of two records\<close>

lemmas ingest_eval =
  processIngestedData_def locateArray_def ingestItems_def processItem_def flatten_eval
  defineProp_def genId_def dec_0 dec_1 computeDensity_def bump_def densityOf_def
  objectPrototypeKeys_def newSet_def setAdd_def sortBy_def sortCompare_def keyCompare_def
  priority_def Let_def

text \<open>
  C4, as the code has it. Ingesting \<^verbatim>\<open>[{"x":1},{"x":2}]\<close> gives a working set of two records
  with the synthesised ids \<^verbatim>\<open>gen-0-t\<close> and \<^verbatim>\<open>gen-1-t'\<close>, which differ whatever the clock reads.
  The density is counted over the records as stored, so the \<^verbatim>\<open>id\<close> written into each of
  them is counted too: the density is \<^verbatim>\<open>{x: 2, id: 2}\<close>. The key order is \<^verbatim>\<open>[x]\<close>.
\<close>

theorem ingest_two_records:
  "processIngestedData now lc (JArr [JObj [(''x'', JNum 1)], JObj [(''x'', JNum 2)]]) st
     = Inr (st\<lparr>data := [[(''x'', JNum 1), (''id'', JStr (''gen-0-'' @ dec (now 0)))],
                         [(''x'', JNum 2), (''id'', JStr (''gen-1-'' @ dec (now 1)))]],
               keyDensity := [(''x'', DNum 2), (''id'', DNum 2)],
               allKeys := [''x''],
               viewMode := ListView,
               error := None\<rparr>)
   \<and> JStr (''gen-0-'' @ dec (now 0)) \<noteq> JStr (''gen-1-'' @ dec (now 1))"
  by (simp add: ingest_eval)

theorem ingest_two_records_witness:
  "processIngestedData (\<lambda>i. 0) charOrder (JArr [JObj [(''x'', JNum 1)], JObj [(''x'', JNum 2)]])
      initialState
     = Inr \<lparr>data = [[(''x'', JNum 1), (''id'', JStr ''gen-0-0'')],
                    [(''x'', JNum 2), (''id'', JStr ''gen-1-0'')]],
            allKeys = [''x''], keyDensity = [(''x'', DNum 2), (''id'', DNum 2)], selectedIds = [],
            loading = False, searchTerm = '''', error = None, rawInput = '''',
            viewMode = ListView\<rparr>"
  using ingest_two_records[of "\<lambda>i. 0" charOrder initialState]
  by (simp add: initialState_def dec_0)

text \<open>C4 as worded fails: the density has an entry for \<^verbatim>\<open>id\<close>, so it is not \<^verbatim>\<open>{x: 2}\<close>.\<close>

theorem density_counterexample:
  "(case processIngestedData (\<lambda>i. 0) charOrder
           (JArr [JObj [(''x'', JNum 1)], JObj [(''x'', JNum 2)]]) initialState of
      Inr st' \<Rightarrow> map_of (keyDensity st') ''id''
    | Inl e \<Rightarrow> None) = Some (DNum 2)"
  by (simp add: ingest_eval)

subsection \<open>Failed ingestion\<close>

lemma ingestItems_error: "ingestItems now lc items st = Inr st' \<Longrightarrow> error st' = None"
  by (auto simp: ingestItems_def Let_def split: sum.splits)

lemma processIngestedData_failed:
  assumes "processIngestedData now lc json st = Inr st'" "error st' \<noteq> None"
  shows "st' = st\<lparr>error := Some noArrayMessage\<rparr>"
  using assms ingestItems_error[of now lc "locateArray json" st st']
  by (auto simp: processIngestedData_def Let_def split: if_splits)

text \<open>
  C7. An ingestion that ends with an error set leaves the working set, the key order and
  the key density as they were. A text that does not parse ends with the error
  \<^verbatim>\<open>Invalid JSON text.\<close>, and a value in which no non-empty array is found ends with the error
  of the locator.
\<close>

theorem ingest_failure_keeps_state:
  "(error (handlePasteIngest parse now lc st) \<noteq> None \<longrightarrow>
      data (handlePasteIngest parse now lc st) = data st
      \<and> allKeys (handlePasteIngest parse now lc st) = allKeys st
      \<and> keyDensity (handlePasteIngest parse now lc st) = keyDensity st)
   \<and> (isl (parse (rawInput st)) \<longrightarrow>
        error (handlePasteIngest parse now lc st) = Some ''Invalid JSON text.'')
   \<and> (parse (rawInput st) = Inr json \<and> locateArray json = [] \<longrightarrow>
        error (handlePasteIngest parse now lc st) = Some noArrayMessage)"
proof (intro conjI impI)
  assume err: "error (handlePasteIngest parse now lc st) \<noteq> None"
  have "data (handlePasteIngest parse now lc st) = data st
      \<and> allKeys (handlePasteIngest parse now lc st) = allKeys st
      \<and> keyDensity (handlePasteIngest parse now lc st) = keyDensity st"
  proof (cases "parse (rawInput st)")
    case (Inl e)
    then show ?thesis by (simp add: handlePasteIngest_def)
  next
    case (Inr json)
    show ?thesis
    proof (cases "processIngestedData now lc json st")
      case (Inl e)
      with Inr show ?thesis by (simp add: handlePasteIngest_def)
    next
      case inner: (Inr st')
      with Inr err have "error st' \<noteq> None" by (simp add: handlePasteIngest_def)
      from processIngestedData_failed[OF inner this] Inr inner
      show ?thesis by (simp add: handlePasteIngest_def)
    qed
  qed
  then show "data (handlePasteIngest parse now lc st) = data st"
    and "allKeys (handlePasteIngest parse now lc st) = allKeys st"
    and "keyDensity (handlePasteIngest parse now lc st) = keyDensity st" by simp_all
next
  assume "isl (parse (rawInput st))"
  then show "error (handlePasteIngest parse now lc st) = Some ''Invalid JSON text.''"
    by (cases "parse (rawInput st)") (simp_all add: handlePasteIngest_def)
next
  assume "parse (rawInput st) = Inr json \<and> locateArray json = []"
  then show "error (handlePasteIngest parse now lc st) = Some noArrayMessage"
    by (simp add: handlePasteIngest_def processIngestedData_def)
qed

theorem ingest_failure_keeps_state_witness:
  "data (handlePasteIngest (\<lambda>s. Inl SyntaxError) (\<lambda>i. 0) charOrder
           (initialState\<lparr>data := [[(''id'', JNum 1)]], rawInput := ''{''\<rparr>))
     = [[(''id'', JNum 1)]]
   \<and> error (handlePasteIngest (\<lambda>s. Inl SyntaxError) (\<lambda>i. 0) charOrder
           (initialState\<lparr>data := [[(''id'', JNum 1)]], rawInput := ''{''\<rparr>))
     = Some ''Invalid JSON text.''
   \<and> data (handlePasteIngest (\<lambda>s. Inr (JNum 7)) (\<lambda>i. 0) charOrder
           (initialState\<lparr>data := [[(''id'', JNum 1)]], rawInput := ''7''\<rparr>))
     = [[(''id'', JNum 1)]]
   \<and> error (handlePasteIngest (\<lambda>s. Inr (JNum 7)) (\<lambda>i. 0) charOrder
           (initialState\<lparr>data := [[(''id'', JNum 1)]], rawInput := ''7''\<rparr>))
     = Some noArrayMessage"
  using ingest_failure_keeps_state[of "\<lambda>s. Inl SyntaxError" "\<lambda>i. 0" charOrder
          "initialState\<lparr>data := [[(''id'', JNum 1)]], rawInput := ''{''\<rparr>" JNull]
        ingest_failure_keeps_state[of "\<lambda>s. Inr (JNum 7)" "\<lambda>i. 0" charOrder
          "initialState\<lparr>data := [[(''id'', JNum 1)]], rawInput := ''7''\<rparr>"
          "JNum 7"]
  by (simp add: initialState_def locateArray_def candidates_def)

text \<open>The same holds for a file that is uploaded or dropped.\<close>

lemma upload_failure_keeps_state:
  assumes "error (handleFileUpload parse now lc content st) \<noteq> None"
  shows "data (handleFileUpload parse now lc content st) = data st
       \<and> allKeys (handleFileUpload parse now lc content st) = allKeys st
       \<and> keyDensity (handleFileUpload parse now lc content st) = keyDensity st"
proof (cases "parse content")
  case (Inl e)
  then show ?thesis by (simp add: handleFileUpload_def)
next
  case (Inr json)
  show ?thesis
  proof (cases "processIngestedData now lc json st")
    case (Inl e)
    with Inr show ?thesis by (simp add: handleFileUpload_def)
  next
    case inner: (Inr st')
    with Inr assms have "error st' \<noteq> None" by (simp add: handleFileUpload_def)
    from processIngestedData_failed[OF inner this] Inr inner
    show ?thesis by (simp add: handleFileUpload_def)
  qed
qed


section \<open>Properties of the merge\<close>

lemma sameValueZero_eq: "sameValueZero a b \<Longrightarrow> a = b"
  by (cases a; cases b) simp_all

lemma sameValueZero_trans: "sameValueZero a b \<Longrightarrow> sameValueZero b c \<Longrightarrow> sameValueZero a c"
  by (cases a; cases b; cases c) simp_all

lemma sameValueZero_left: "sameValueZero a b \<Longrightarrow> sameValueZero a c \<Longrightarrow> sameValueZero b c"
  by (cases a; cases b; cases c) auto

lemma mapGet_mapSet:
  "mapGet (mapSet k' v m) k = (if sameValueZero k' k then Some v else mapGet m k)"
proof (induction m)
  case Nil
  show ?case by simp
next
  case (Cons e m)
  obtain k0 v0 where e: "e = (k0, v0)" by (cases e)
  show ?case
  proof (cases "sameValueZero k0 k'")
    case True
    then show ?thesis
      using sameValueZero_trans[of k0 k' k] sameValueZero_left[of k0 k' k]
      by (auto simp: e)
  next
    case False
    then show ?thesis
      using Cons.IH sameValueZero_eq[of k0 k] sameValueZero_eq[of k' k]
      by (auto simp: e)
  qed
qed

lemma find_app:
  "find P (xs @ ys) = (case find P xs of Some x \<Rightarrow> Some x | None \<Rightarrow> find P ys)"
  by (induction xs) simp_all

lemma find_Some_set: "find P xs = Some x \<Longrightarrow> x \<in> set xs \<and> P x"
  by (induction xs) (auto split: if_splits)

lemma mapGet_fold:
  "mapGet (fold (\<lambda>e m. mapSet (fst e) (snd e) m) (map (\<lambda>d. (recId d, d)) out) m) k =
     (case find (\<lambda>n. sameValueZero (recId n) k) (rev out) of
        Some n \<Rightarrow> Some n
      | None \<Rightarrow> mapGet m k)"
proof (induction out arbitrary: m)
  case Nil
  show ?case by simp
next
  case (Cons d out)
  show ?case
    by (simp add: Cons.IH find_app mapGet_mapSet split: option.splits)
qed

lemma mapGet_newMap:
  "mapGet (newMap (map (\<lambda>d. (recId d, d)) out)) k = idToRecord out k"
  unfolding newMap_def idToRecord_def
  by (simp add: mapGet_fold split: option.splits)

lemma mergeRecord_newMap:
  "map (mergeRecord (newMap (map (\<lambda>d. (recId d, d)) out))) prev = mergeById out prev"
  by (simp add: mergeRecord_def mergeById_def mapGet_newMap)

lemma idToRecord_Some:
  "idToRecord out k = Some n \<Longrightarrow> n \<in> set out \<and> recId n = k"
  unfolding idToRecord_def
  using find_Some_set[of "\<lambda>n. sameValueZero (recId n) k" "rev out" n]
  by (auto dest: sameValueZero_eq)

lemma handleTransform_Records:
  "\<not> (selectedIds st = [] \<and> data st = []) \<Longrightarrow>
     data (handleTransform (Records out) st) =
       (if selectedIds st = [] then out else mergeById out (data st))"
  by (auto simp: handleTransform_def Let_def mergeRecord_newMap)



lemma mergeById_ids: "map recId (mergeById out prev) = map recId prev"
  unfolding mergeById_def
  by (induction prev) (auto split: option.splits dest: idToRecord_Some)

lemma mergeById_from:
  "list_all2 (\<lambda>d' d. d' = d \<or> (d' \<in> set out \<and> recId d' = recId d)) (mergeById out prev) prev"
  unfolding mergeById_def list_all2_map1
  by (rule list.rel_refl_strong) (auto split: option.splits dest: idToRecord_Some)

text \<open>
  C10. With a selection, whatever the engine answers, the working set keeps its length and
  its sequence of ids: at every position stands the record that stood there or a record
  of the output with the same id. An output record whose id no record has is not taken
  up.
\<close>

theorem partial_merge_keeps_ids:
  assumes "selectedIds st \<noteq> []"
  shows "length (data (handleTransform rep st)) = length (data st)
       \<and> map recId (data (handleTransform rep st)) = map recId (data st)
       \<and> list_all2 (\<lambda>d' d. d' = d \<or> (d' \<in> set (replyRecords rep) \<and> recId d' = recId d))
            (data (handleTransform rep st)) (data st)"
proof (cases rep)
  case Rejected
  with assms show ?thesis
    by (simp add: handleTransform_def list.rel_refl)
next
  case NoArray
  with assms show ?thesis
    by (simp add: handleTransform_def list.rel_refl)
next
  case (Records out)
  from assms have d: "data (handleTransform (Records out) st) = mergeById out (data st)"
    by (simp add: handleTransform_Records)
  have "length (mergeById out (data st)) = length (data st)"
    by (simp add: mergeById_def)
  with d Records mergeById_ids[of out "data st"] mergeById_from[of out "data st"]
  show ?thesis by (simp add: replyRecords_def)
qed

theorem partial_merge_keeps_ids_witness:
  "map recId (data (handleTransform
           (Records [[(''id'', JNum 2), (''sql'', JStr ''B'')], [(''id'', JNum 9)]])
           (initialState\<lparr>data := [[(''id'', JNum 1)], [(''id'', JNum 2)], [(''id'', JNum 3)]],
                          selectedIds := [JNum 2]\<rparr>)))
     = [Some (JNum 1), Some (JNum 2), Some (JNum 3)]
   \<and> length (data (handleTransform
           (Records [[(''id'', JNum 2), (''sql'', JStr ''B'')], [(''id'', JNum 9)]])
           (initialState\<lparr>data := [[(''id'', JNum 1)], [(''id'', JNum 2)], [(''id'', JNum 3)]],
                          selectedIds := [JNum 2]\<rparr>))) = 3"
  using partial_merge_keeps_ids[of
          "initialState\<lparr>data := [[(''id'', JNum 1)], [(''id'', JNum 2)], [(''id'', JNum 3)]],
                          selectedIds := [JNum 2]\<rparr>"
          "Records [[(''id'', JNum 2), (''sql'', JStr ''B'')], [(''id'', JNum 9)]]"]
  by (simp add: initialState_def recId_def)


section \<open>Properties of key density and key order\<close>

subsection \<open>Sorting with a comparator\<close>

lemma set_insertBy: "set (insertBy cmp x ys) = insert x (set ys)"
  by (induction ys) auto

lemma distinct_insertBy: "x \<notin> set ys \<Longrightarrow> distinct ys \<Longrightarrow> distinct (insertBy cmp x ys)"
  by (induction ys) (auto simp: set_insertBy)

text \<open>On a set of elements that the comparator orders, insertion keeps a list sorted.\<close>

lemma sorted_insertBy:
  assumes total: "\<And>a b. a \<in> S \<Longrightarrow> b \<in> S \<Longrightarrow> cmp a b \<le> 0 \<or> cmp b a \<le> 0"
    and trans: "\<And>a b c. a \<in> S \<Longrightarrow> b \<in> S \<Longrightarrow> c \<in> S \<Longrightarrow>
                  cmp a b \<le> 0 \<Longrightarrow> cmp b c \<le> 0 \<Longrightarrow> cmp a c \<le> 0"
    and x: "x \<in> S"
    and ys: "set ys \<subseteq> S"
    and sorted: "sorted_wrt (\<lambda>a b. cmp a b \<le> 0) ys"
  shows "sorted_wrt (\<lambda>a b. cmp a b \<le> 0) (insertBy cmp x ys)"
  using ys sorted
proof (induction ys)
  case Nil
  show ?case by simp
next
  case (Cons y ys)
  from Cons.prems have y: "y \<in> S" and sub: "set ys \<subseteq> S" by simp_all
  show ?case
  proof (cases "cmp x y \<le> 0")
    case True
    have "cmp x z \<le> 0" if z: "z \<in> set ys" for z
    proof -
      from Cons.prems z have "cmp y z \<le> 0" by simp
      moreover from z sub have "z \<in> S" by blast
      ultimately show ?thesis using trans[OF x y _ True] by blast
    qed
    with True Cons.prems show ?thesis by auto
  next
    case False
    with total[OF x y] have "cmp y x \<le> 0" by simp
    moreover have "sorted_wrt (\<lambda>a b. cmp a b \<le> 0) (insertBy cmp x ys)"
      using Cons.IH[OF sub] Cons.prems by simp
    ultimately show ?thesis using False Cons.prems by (auto simp: set_insertBy)
  qed
qed

lemma set_sortBy: "set (sortBy cmp xs) = set xs"
  unfolding sortBy_def by (induction xs) (auto simp: set_insertBy)

lemma distinct_sortBy: "distinct xs \<Longrightarrow> distinct (sortBy cmp xs)"
  using set_sortBy[of cmp] unfolding sortBy_def
  by (induction xs) (auto simp: distinct_insertBy)

lemma sorted_sortBy:
  assumes total: "\<And>a b. a \<in> S \<Longrightarrow> b \<in> S \<Longrightarrow> cmp a b \<le> 0 \<or> cmp b a \<le> 0"
    and trans: "\<And>a b c. a \<in> S \<Longrightarrow> b \<in> S \<Longrightarrow> c \<in> S \<Longrightarrow>
                  cmp a b \<le> 0 \<Longrightarrow> cmp b c \<le> 0 \<Longrightarrow> cmp a c \<le> 0"
    and xs: "set xs \<subseteq> S"
  shows "sorted_wrt (\<lambda>a b. cmp a b \<le> 0) (sortBy cmp xs)"
  using xs
proof (induction xs)
  case Nil
  show ?case by (simp add: sortBy_def)
next
  case (Cons x xs)
  then have x: "x \<in> S" and sub: "set xs \<subseteq> S" by simp_all
  have "set (sortBy cmp xs) \<subseteq> S" using sub by (simp add: set_sortBy)
  from sorted_insertBy[of S cmp x "sortBy cmp xs", OF total trans x this Cons.IH[OF sub]]
  show ?case by (simp add: sortBy_def)
qed


subsection \<open>The set of observed keys\<close>

lemma fold_setAdd:
  "set (fold setAdd xs acc) = set acc \<union> set xs
   \<and> (distinct acc \<longrightarrow> distinct (fold setAdd xs acc))"
  by (induction xs arbitrary: acc) (auto simp: setAdd_def)

lemma set_newSet: "set (newSet xs) = set xs"
  using fold_setAdd[of xs "[]"] by (simp add: newSet_def)

lemma distinct_newSet: "distinct (newSet xs)"
  using fold_setAdd[of xs "[]"] by (simp add: newSet_def)

subsection \<open>The comparator of the keys\<close>

lemma indexOf_bounds: "- 1 \<le> indexOf xs a"
  by (induction xs) (auto simp: Let_def)

lemma indexOf_member: "(indexOf xs a \<noteq> - 1) = (a \<in> set xs)"
proof (induction xs)
  case Nil
  show ?case by simp
next
  case (Cons x xs)
  then show ?case using indexOf_bounds[of xs a] by (auto simp: Let_def)
qed


text \<open>
  Between two keys whose density is a number, the comparator as the sort reads it agrees
  with \<open>keyBefore\<close>.
\<close>

lemma keyCompare_keyBefore:
  assumes "densityOf density a = DNum (cnt a)" "densityOf density b = DNum (cnt b)"
  shows "(sortCompare (keyCompare lc density) a b \<le> 0) = keyBefore lc cnt a b"
  unfolding sortCompare_def keyCompare_def keyBefore_def Let_def indexOf_member assms
  by auto

lemma keyBefore_cases:
  "a \<in> set priority \<Longrightarrow> b \<in> set priority \<Longrightarrow>
     keyBefore lc cnt a b = (indexOf priority a \<le> indexOf priority b)"
  "a \<in> set priority \<Longrightarrow> b \<notin> set priority \<Longrightarrow> keyBefore lc cnt a b = True"
  "a \<notin> set priority \<Longrightarrow> b \<in> set priority \<Longrightarrow> keyBefore lc cnt a b = False"
  "a \<notin> set priority \<Longrightarrow> b \<notin> set priority \<Longrightarrow>
     keyBefore lc cnt a b = (cnt b < cnt a \<or> (cnt a = cnt b \<and> lc a b \<le> 0))"
  by (simp_all add: keyBefore_def)

lemma keyBefore_total:
  assumes "consistentCompare lc"
  shows "keyBefore lc cnt a b \<or> keyBefore lc cnt b a"
proof -
  from assms have lc: "lc a b \<le> 0 \<or> lc b a \<le> 0"
    unfolding consistentCompare_def by blast
  show ?thesis
  proof (cases "a \<in> set priority"; cases "b \<in> set priority")
    assume "a \<in> set priority" "b \<in> set priority"
    then show ?thesis by (simp add: keyBefore_cases) linarith
  next
    assume "a \<in> set priority" "b \<notin> set priority"
    then show ?thesis by (simp add: keyBefore_cases)
  next
    assume "a \<notin> set priority" "b \<in> set priority"
    then show ?thesis by (simp add: keyBefore_cases)
  next
    assume "a \<notin> set priority" "b \<notin> set priority"
    with lc show ?thesis by (simp add: keyBefore_cases) linarith
  qed
qed

lemma keyBefore_trans:
  assumes cc: "consistentCompare lc"
    and ab: "keyBefore lc cnt a b" and bc: "keyBefore lc cnt b c"
  shows "keyBefore lc cnt a c"
proof -
  from cc have tr: "lc a b \<le> 0 \<Longrightarrow> lc b c \<le> 0 \<Longrightarrow> lc a c \<le> 0"
    unfolding consistentCompare_def by blast
  show ?thesis
  proof (cases "a \<in> set priority")
    case a: True
    show ?thesis
    proof (cases "c \<in> set priority")
      case c: True
      have b: "b \<in> set priority"
      proof (rule ccontr)
        assume "b \<notin> set priority"
        with c bc show False by (simp add: keyBefore_cases)
      qed
      from ab a b have "indexOf priority a \<le> indexOf priority b" by (simp add: keyBefore_cases)
      moreover from bc b c have "indexOf priority b \<le> indexOf priority c"
        by (simp add: keyBefore_cases)
      ultimately show ?thesis using a c by (simp add: keyBefore_cases)
    next
      case False
      with a show ?thesis by (simp add: keyBefore_cases)
    qed
  next
    case a: False
    have b: "b \<notin> set priority"
    proof (rule ccontr)
      assume "\<not> b \<notin> set priority"
      with a ab show False by (simp add: keyBefore_cases)
    qed
    have c: "c \<notin> set priority"
    proof (rule ccontr)
      assume "\<not> c \<notin> set priority"
      with b bc show False by (simp add: keyBefore_cases)
    qed
    from ab a b have 1: "cnt b < cnt a \<or> (cnt a = cnt b \<and> lc a b \<le> 0)"
      by (simp add: keyBefore_cases)
    from bc b c have 2: "cnt c < cnt b \<or> (cnt b = cnt c \<and> lc b c \<le> 0)"
      by (simp add: keyBefore_cases)
    from 1 2 tr have "cnt c < cnt a \<or> (cnt a = cnt c \<and> lc a c \<le> 0)" by auto
    with a c show ?thesis by (simp add: keyBefore_cases)
  qed
qed


subsection \<open>The density counts records\<close>

text \<open>
  For a key that is not the name of a member of \<^verbatim>\<open>Object.prototype\<close> the density is the
  number of records that contain the key.
\<close>

lemma densityOf_update:
  "densityOf (AList.update k v d) k' = (if k = k' then v else densityOf d k')"
  by (simp add: densityOf_def update_conv')

lemma densityOf_bump:
  assumes "k' \<notin> set objectPrototypeKeys" "densityOf d k' = DNum n"
  shows "densityOf (bump k d) k' = DNum (n + (if k = k' then 1 else 0))"
proof (cases "k = ''__proto__''")
  case True
  with assms have "k \<noteq> k'" by (auto simp: objectPrototypeKeys_def)
  with True assms(2) show ?thesis by (simp add: bump_def putProp_def)
next
  case False
  then have "densityOf (bump k d) k' = (if k = k' then plusOne (densityOf d k) else densityOf d k')"
    by (simp add: bump_def putProp_def densityOf_update)
  with assms(2) show ?thesis by auto
qed

lemma densityOf_fold_bump:
  assumes "k' \<notin> set objectPrototypeKeys"
  shows "distinct ks \<Longrightarrow> densityOf d k' = DNum n \<Longrightarrow>
           densityOf (fold bump ks d) k' = DNum (n + (if k' \<in> set ks then 1 else 0))"
proof (induction ks arbitrary: d n)
  case Nil
  then show ?case by simp
next
  case (Cons k ks)
  from densityOf_bump[OF assms Cons.prems(2), of k]
  have "densityOf (bump k d) k' = DNum (n + (if k = k' then 1 else 0))" .
  from Cons.IH[OF _ this] Cons.prems(1) show ?case by auto
qed

lemma densityOf_fold_records:
  assumes "k \<notin> set objectPrototypeKeys"
  shows "\<forall>r \<in> set recs. distinct (map fst r) \<Longrightarrow> densityOf d k = DNum n \<Longrightarrow>
     densityOf (fold (\<lambda>item density. fold bump (map fst item) density) recs d) k
       = DNum (n + recordCount recs k)"
proof (induction recs arbitrary: d n)
  case Nil
  then show ?case by (simp add: recordCount_def)
next
  case (Cons r recs)
  from Cons.prems have dr: "distinct (map fst r)" by simp
  from densityOf_fold_bump[OF assms dr Cons.prems(2)]
  have "densityOf (fold bump (map fst r) d) k = DNum (n + (if k \<in> set (map fst r) then 1 else 0))" .
  from Cons.IH[OF _ this] Cons.prems(1)
  show ?case by (auto simp: recordCount_def)
qed

lemma densityOf_computeDensity:
  assumes "k \<notin> set objectPrototypeKeys" "\<forall>r \<in> set recs. distinct (map fst r)"
  shows "densityOf (computeDensity recs) k = DNum (recordCount recs k)"
proof -
  have "densityOf [] k = DNum 0" using assms(1) by (simp add: densityOf_def)
  from densityOf_fold_records[OF assms(1) assms(2) this] show ?thesis
    by (simp add: computeDensity_def)
qed

subsection \<open>The records of a pass\<close>

lemma processItem_distinct:
  assumes "processItem now item idx = Inr r"
  shows "distinct (map fst r)"
proof -
  from processItem_recId[OF assms] obtain itemId flat where
    f: "flattenObject item '''' = Inr flat"
    and r: "r = defineProp ''id'' (jsOr itemId (jsOr (map_of flat ''id'') (genId now idx))) flat"
    by blast
  from flattenObject_result[OF f] show ?thesis unfolding r by (simp add: distinct_defineProp)
qed

lemma mapItems_distinct:
  assumes "mapItems now items n = Inr recs"
  shows "\<forall>r \<in> set recs. distinct (map fst r)"
proof
  fix r assume "r \<in> set recs"
  then obtain j where j: "j < length recs" and r: "r = recs ! j"
    by (auto simp: in_set_conv_nth)
  from mapItems_nth[OF assms] j have "processItem now (items ! j) (n + j) = Inr (recs ! j)"
    by simp
  with r show "distinct (map fst r)" by (simp add: processItem_distinct)
qed

lemma processIngestedData_success:
  assumes "processIngestedData now lc json st = Inr st'" "error st' = None"
  shows "\<exists>processed. mapItems now (locateArray json) 0 = Inr processed
           \<and> data st' = processed
           \<and> keyDensity st' = computeDensity processed
           \<and> allKeys st' = filter (\<lambda>k. k \<noteq> ''id'' \<and> k \<noteq> ''status'')
                 (sortBy (sortCompare (keyCompare lc (computeDensity processed)))
                    (newSet (concat (map (map fst) processed))))"
  using assms
  by (auto simp: processIngestedData_def ingestItems_def Let_def split: if_splits sum.splits)

text \<open>
  After an ingestion that succeeded, if no key of a record is the name of a member of
  \<^verbatim>\<open>Object.prototype\<close> and \<^verbatim>\<open>localeCompare\<close> orders the strings, the key order holds every key
  of the records of the working set except \<^verbatim>\<open>id\<close> and \<^verbatim>\<open>status\<close>, each once, and is
  sorted: priority keys first in the order of the priority list, then the other keys by
  descending count of the records that contain them, and among equal counts by
  \<^verbatim>\<open>localeCompare\<close>.
\<close>

lemma allKeys_sorted:
  assumes cc: "consistentCompare lc"
    and run: "processIngestedData now lc json st = Inr st'"
    and ok: "error st' = None"
    and plain: "\<forall>r \<in> set (data st'). \<forall>k \<in> fst ` set r. k \<notin> set objectPrototypeKeys"
  shows "distinct (allKeys st')
       \<and> set (allKeys st') = (\<Union>r \<in> set (data st'). fst ` set r) - {''id'', ''status''}
       \<and> sorted_wrt (keyBefore lc (recordCount (data st'))) (allKeys st')"
proof -
  from processIngestedData_success[OF run ok] obtain processed where
    items: "mapItems now (locateArray json) 0 = Inr processed"
    and data: "data st' = processed"
    and keys: "allKeys st' = filter (\<lambda>k. k \<noteq> ''id'' \<and> k \<noteq> ''status'')
                 (sortBy (sortCompare (keyCompare lc (computeDensity processed)))
                    (newSet (concat (map (map fst) processed))))"
    by blast
  let ?cmp = "sortCompare (keyCompare lc (computeDensity processed))"
  let ?keys = "newSet (concat (map (map fst) processed))"
  let ?S = "\<Union>r \<in> set processed. fst ` set r"
  have keyset: "set ?keys = ?S" by (auto simp: set_newSet)
  have dens: "densityOf (computeDensity processed) k = DNum (recordCount processed k)"
    if "k \<in> ?S" for k
  proof -
    from that plain data have "k \<notin> set objectPrototypeKeys" by blast
    then show ?thesis using mapItems_distinct[OF items] by (rule densityOf_computeDensity)
  qed
  have before: "(?cmp a b \<le> 0) = keyBefore lc (recordCount processed) a b"
    if "a \<in> ?S" "b \<in> ?S" for a b
    using dens[OF that(1)] dens[OF that(2)] by (rule keyCompare_keyBefore)
  have "sorted_wrt (\<lambda>a b. ?cmp a b \<le> 0) (sortBy ?cmp ?keys)"
  proof (rule sorted_sortBy[where S = ?S])
    show "?cmp a b \<le> 0 \<or> ?cmp b a \<le> 0" if "a \<in> ?S" "b \<in> ?S" for a b
      unfolding before[OF that] before[OF that(2) that(1)] by (rule keyBefore_total[OF cc])
    show "?cmp a c \<le> 0" if "a \<in> ?S" "b \<in> ?S" "c \<in> ?S" "?cmp a b \<le> 0" "?cmp b c \<le> 0"
      for a b c
      using that(4,5)
      unfolding before[OF that(1,2)] before[OF that(2,3)] before[OF that(1,3)]
      by (rule keyBefore_trans[OF cc])
    show "set ?keys \<subseteq> ?S" using keyset by simp
  qed
  then have "sorted_wrt (keyBefore lc (recordCount processed)) (sortBy ?cmp ?keys)"
  proof (rule sorted_wrt_mono_rel[rotated])
    fix a b assume "a \<in> set (sortBy ?cmp ?keys)" "b \<in> set (sortBy ?cmp ?keys)" "?cmp a b \<le> 0"
    then show "keyBefore lc (recordCount processed) a b"
      using before[of a b] keyset by (simp add: set_sortBy)
  qed
  then have sorted: "sorted_wrt (keyBefore lc (recordCount (data st'))) (allKeys st')"
    unfolding keys data by (rule sorted_wrt_filter)
  have distinct: "distinct (allKeys st')"
    unfolding keys by (simp add: distinct_sortBy distinct_newSet)
  have "set (allKeys st') = (\<Union>r \<in> set (data st'). fst ` set r) - {''id'', ''status''}"
    unfolding keys data by (auto simp: set_sortBy set_newSet)
  with distinct sorted show ?thesis by blast
qed


lemma charOrder_le: "(charOrder a b \<le> 0) = (a \<le> b)"
  by (auto simp: charOrder_def)

lemma consistentCompare_charOrder: "consistentCompare charOrder"
  unfolding consistentCompare_def charOrder_le by auto

lemma allKeys_sorted_example:
  "processIngestedData (\<lambda>i. 0) charOrder
      (JArr [JObj [(''b'', JNum 1), (''text'', JStr ''t''), (''a'', JNum 2)],
             JObj [(''b'', JNum 3), (''c'', JNum 4), (''status'', JStr ''ok'')]]) initialState
     = Inr \<lparr>data = [[(''b'', JNum 1), (''text'', JStr ''t''), (''a'', JNum 2),
                      (''id'', JStr ''gen-0-0'')],
                    [(''b'', JNum 3), (''c'', JNum 4), (''status'', JStr ''ok''),
                      (''id'', JStr ''gen-1-0'')]],
            allKeys = [''text'', ''b'', ''a'', ''c''],
            keyDensity = [(''b'', DNum 2), (''text'', DNum 1), (''a'', DNum 1), (''id'', DNum 2),
                          (''c'', DNum 1), (''status'', DNum 1)],
            selectedIds = [], loading = False, searchTerm = '''', error = None,
            rawInput = '''', viewMode = ListView\<rparr>"
  by (simp add: ingest_eval charOrder_def initialState_def)

text \<open>
  C5. The key order is not always sorted by density. The density table starts as \<^verbatim>\<open>{}\<close>, so
  for a key named like a member of \<^verbatim>\<open>Object.prototype\<close> the first \<^verbatim>\<open>density[k] || 0\<close> finds the
  inherited function, the stored value is a string, and the comparator returns \<^verbatim>\<open>NaN\<close>,
  which the sort reads as equal. In \<^verbatim>\<open>[{"toString": 1, "z": 1}, {"z": 2}]\<close> the key \<^verbatim>\<open>z\<close> is in
  two records and \<^verbatim>\<open>toString\<close> in one, yet \<^verbatim>\<open>toString\<close> comes first.
\<close>

theorem allKeys_inherited_name:
  "processIngestedData now lc
      (JArr [JObj [(''toString'', JNum 1), (''z'', JNum 1)], JObj [(''z'', JNum 2)]]) st
     = Inr (st\<lparr>data := [[(''toString'', JNum 1), (''z'', JNum 1),
                          (''id'', JStr (''gen-0-'' @ dec (now 0)))],
                         [(''z'', JNum 2), (''id'', JStr (''gen-1-'' @ dec (now 1)))]],
               keyDensity := [(''toString'', DText ''toString'' 1), (''z'', DNum 2),
                              (''id'', DNum 2)],
               allKeys := [''toString'', ''z''],
               viewMode := ListView,
               error := None\<rparr>)
   \<and> recordCount [[(''toString'', JNum 1), (''z'', JNum 1),
                     (''id'', JStr (''gen-0-'' @ dec (now 0)))],
                    [(''z'', JNum 2), (''id'', JStr (''gen-1-'' @ dec (now 1)))]] ''toString'' = 1
   \<and> recordCount [[(''toString'', JNum 1), (''z'', JNum 1),
                     (''id'', JStr (''gen-0-'' @ dec (now 0)))],
                    [(''z'', JNum 2), (''id'', JStr (''gen-1-'' @ dec (now 1)))]] ''z'' = 2
   \<and> \<not> sorted_wrt
         (keyBefore lc
            (recordCount [[(''toString'', JNum 1), (''z'', JNum 1),
                           (''id'', JStr (''gen-0-'' @ dec (now 0)))],
                          [(''z'', JNum 2), (''id'', JStr (''gen-1-'' @ dec (now 1)))]]))
         [''toString'', ''z'']"
  by (simp add: ingest_eval recordCount_def keyBefore_def)

end
